theory Spec2Isabelle
  imports Main
begin

section \<open>Data model\<close>

subsection \<open>Parse-tree nodes\<close>

text \<open>
  The node of golang.org/x/net/html: a type tag, the data (the tag name of an element,
  the content of a text node), the attributes and the children. The fields Parent,
  PrevSibling and LastChild are never read by the program and are left out.
\<close>

datatype NodeType =
  ErrorNode | TextNode | DocumentNode | ElementNode | CommentNode | DoctypeNode | RawNode

record Attribute =
  Namespace :: string
  Key :: string
  Val :: string

datatype Node =
  Node (Type: NodeType) (Data: string) (Attr: "Attribute list") (FirstChild: "Node list")

text \<open>
  A \<^verbatim>\<open>*html.Node\<close> that the program only reads is modelled by the sibling chain that
  starts at the node: \<open>[]\<close> is the nil pointer, and \<open>n # next\<close> points to the node \<open>n\<close>
  whose field NextSibling is the chain \<open>next\<close>. The field FirstChild of a node is the
  chain of its children, so the Go loop
  \<^verbatim>\<open>for child := node.FirstChild; child != nil; child = child.NextSibling\<close>
  is a recursion over that chain.
\<close>

type_synonym nodeptr = "Node list"

subsection \<open>Errors and panics\<close>

text \<open>
  A Go \<^verbatim>\<open>error\<close> value carries its message. A function that returns
  \<^verbatim>\<open>(value, error)\<close> returns a pair whose second component is \<open>None\<close> for
  \<^verbatim>\<open>nil\<close>. A run-time panic is the left summand of the result of a function that
  can panic.
\<close>

datatype error = Error string

datatype panic = NilPointerDereference | IndexOutOfRange

subsection \<open>Library functions the program calls\<close>

text \<open>
  The parser and the serializer of golang.org/x/net/html, \<^verbatim>\<open>url.QueryUnescape\<close> and
  \<^verbatim>\<open>strings.Fields\<close> are not part of the repository. They are parameters of the
  model, collected in one record; every theorem below holds for all of them.
\<close>

record env =
  html_Parse :: "string \<Rightarrow> error + Node"
  html_Render :: "Node \<Rightarrow> error + string"
  url_QueryUnescape :: "string \<Rightarrow> error + string"
  strings_Fields :: "string \<Rightarrow> string list"

text \<open>\<^verbatim>\<open>strings.Join(elems, sep)\<close>.\<close>

fun strings_Join :: "string list \<Rightarrow> string \<Rightarrow> string" where
  "strings_Join [] sep = []"
| "strings_Join [s] sep = s"
| "strings_Join (s # t # rest) sep = s @ sep @ strings_Join (t # rest) sep"

text \<open>
  \<^verbatim>\<open>fmt.Sprintf("%d", n)\<close>: the decimal digits of \<open>n\<close>, after a minus sign when \<open>n\<close> is
  negative. Go's \<^verbatim>\<open>int\<close> has 64 bits; the integers printed here count headings of one
  document held in memory, so they are modelled by \<open>int\<close>.
\<close>

fun decimal :: "nat \<Rightarrow> string" where
  "decimal n =
     (if n < 10 then [''0123456789'' ! n]
      else decimal (n div 10) @ [''0123456789'' ! (n mod 10)])"

definition Sprintf_d :: "int \<Rightarrow> string" where
  "Sprintf_d n = (if n < 0 then CHR ''-'' # decimal (nat (- n)) else decimal (nat n))"

subsection \<open>Chapters and pages\<close>

record Title =
  Prefix :: string
  Html :: string
  Text :: string

record Content =
  Html :: string

record Chapter =
  Id :: int
  Level :: int
  Path :: string
  Title :: Title
  Content :: Content

text \<open>
  The struct Page starts with the five fields of Chapter, under the same names, and adds
  the navigation fields. A \<^verbatim>\<open>*Chapter\<close> is modelled by the chapter itself (\<open>None\<close> for
  nil): every chapter of an extracted list has its own Id, so that equal chapters of
  such a list are the same chapter.
\<close>

record Page = Chapter +
  Next :: "Chapter option"
  HasNext :: bool
  Previous :: "Chapter option"
  HasPrevious :: bool
  Parents :: "Chapter option list"
  HasParents :: bool
  Children :: "Chapter list"
  HasChildren :: bool

section \<open>Package slices\<close>

fun Index_loop :: "int \<Rightarrow> 'a list \<Rightarrow> 'a \<Rightarrow> int" where
  "Index_loop index [] element = - 1"
| "Index_loop index (current # rest) element =
     (if element = current then index else Index_loop (index + 1) rest element)"

definition slices_Index :: "'a list \<Rightarrow> 'a \<Rightarrow> int" where
  "slices_Index slice element = Index_loop 0 slice element"



definition slices_IsEmpty :: "'a list \<Rightarrow> bool" where
  "slices_IsEmpty slice = (length slice = 0)"

text \<open>
  Insert on a slice of pointers: the slots that \<^verbatim>\<open>make\<close> creates and \<^verbatim>\<open>copy\<close> does not
  fill hold nil. The assignment \<^verbatim>\<open>values[index] = element\<close> panics when the index is
  negative; it is never beyond the new size.
\<close>

definition slices_Insert :: "'a option list \<Rightarrow> 'a \<Rightarrow> int \<Rightarrow> panic + 'a option list" where
  "slices_Insert slice element index =
     (let len = int (length slice);
          size = (if index < len then len else len + ((index + 1) - len));
          values = take (nat size) slice @ replicate (nat size - length slice) None
      in if index < 0 \<or> index \<ge> size then Inl IndexOutOfRange
         else Inr (values[nat index := Some element]))"

section \<open>Package parsetree\<close>


definition parsetree_IsNil :: "nodeptr \<Rightarrow> bool" where
  "parsetree_IsNil node = (node = [])"

definition parsetree_IsText :: "nodeptr \<Rightarrow> bool" where
  "parsetree_IsText node = (\<not> parsetree_IsNil node \<and> Type (hd node) = TextNode)"

definition parsetree_IsElement :: "nodeptr \<Rightarrow> bool" where
  "parsetree_IsElement node = (\<not> parsetree_IsNil node \<and> Type (hd node) = ElementNode)"

definition parsetree_IsElementFunc :: "nodeptr \<Rightarrow> (nodeptr \<Rightarrow> bool) option \<Rightarrow> bool" where
  "parsetree_IsElementFunc node predicate =
     (case predicate of
        None \<Rightarrow> parsetree_IsElement node
      | Some p \<Rightarrow> parsetree_IsElement node \<and> p node)"

definition parsetree_HeadingMap :: "string \<rightharpoonup> int" where
  "parsetree_HeadingMap =
     Map.empty(''h1'' \<mapsto> 1, ''h2'' \<mapsto> 2, ''h3'' \<mapsto> 3, ''h4'' \<mapsto> 4, ''h5'' \<mapsto> 5, ''h6'' \<mapsto> 6)"

definition parsetree_IsHeading :: "nodeptr \<Rightarrow> bool" where
  "parsetree_IsHeading node =
     parsetree_IsElementFunc node (Some (\<lambda>n. parsetree_HeadingMap (Data (hd node)) \<noteq> None))"

definition parsetree_IsBody :: "nodeptr \<Rightarrow> bool" where
  "parsetree_IsBody node = parsetree_IsElementFunc node (Some (\<lambda>n. Data (hd n) = ''body''))"

text \<open>
  Body keeps the result of the recursive call on the last child it visited, unless a
  child is itself the body.
\<close>

fun parsetree_Body :: "nodeptr \<Rightarrow> nodeptr" and Body_loop :: "nodeptr \<Rightarrow> nodeptr \<Rightarrow> nodeptr" where
  "parsetree_Body [] = []"
| "parsetree_Body (Node t d a cs # next) =
     (if parsetree_IsBody (Node t d a cs # next) then Node t d a cs # next
      else Body_loop cs [])"
| "Body_loop [] body = body"
| "Body_loop (c # next) body =
     (if parsetree_IsBody (c # next) then c # next
      else Body_loop next (parsetree_Body (c # next)))"

fun ChildrenFunc_loop :: "nodeptr \<Rightarrow> (nodeptr \<Rightarrow> bool) option \<Rightarrow> nodeptr list" where
  "ChildrenFunc_loop [] predicate = []"
| "ChildrenFunc_loop (c # next) predicate =
     (case predicate of
        None \<Rightarrow> ChildrenFunc_loop next predicate
      | Some p \<Rightarrow>
          (if p (c # next) then (c # next) # ChildrenFunc_loop next predicate
           else ChildrenFunc_loop next predicate))"

definition parsetree_ChildrenFunc :: "nodeptr \<Rightarrow> (nodeptr \<Rightarrow> bool) option \<Rightarrow> nodeptr list" where
  "parsetree_ChildrenFunc node predicate =
     (if parsetree_IsNil node then [] else ChildrenFunc_loop (FirstChild (hd node)) predicate)"

definition parsetree_Children :: "nodeptr \<Rightarrow> nodeptr list" where
  "parsetree_Children node =
     parsetree_ChildrenFunc node (Some (\<lambda>n. parsetree_IsElement n \<or> parsetree_IsText n))"

definition parsetree_Headings :: "nodeptr \<Rightarrow> nodeptr list" where
  "parsetree_Headings node =
     (if parsetree_IsNil node then [] else parsetree_ChildrenFunc node (Some parsetree_IsHeading))"

text \<open>HeadingLevel reads \<^verbatim>\<open>node.Data\<close> without a nil check.\<close>

definition parsetree_HeadingLevel :: "nodeptr \<Rightarrow> panic + (int \<times> error option)" where
  "parsetree_HeadingLevel node =
     (case node of
        [] \<Rightarrow> Inl NilPointerDereference
      | n # _ \<Rightarrow>
          (case parsetree_HeadingMap (Data n) of
             Some headingLevel \<Rightarrow> Inr (headingLevel, None)
           | None \<Rightarrow> Inr (- 1, Some (Error ''the given node contains no valid heading tag''))))"

fun SiblingsUntilFunc_loop :: "nodeptr \<Rightarrow> (nodeptr \<Rightarrow> bool) option \<Rightarrow> nodeptr list" where
  "SiblingsUntilFunc_loop [] predicate = []"
| "SiblingsUntilFunc_loop (s # next) predicate =
     (case predicate of
        None \<Rightarrow> (s # next) # SiblingsUntilFunc_loop next predicate
      | Some p \<Rightarrow>
          (if p (s # next) then []
           else (s # next) # SiblingsUntilFunc_loop next predicate))"

definition parsetree_SiblingsUntilFunc :: "nodeptr \<Rightarrow> (nodeptr \<Rightarrow> bool) option \<Rightarrow> nodeptr list" where
  "parsetree_SiblingsUntilFunc node predicate =
     (if parsetree_IsNil node then [] else SiblingsUntilFunc_loop (tl node) predicate)"

definition parsetree_TagName :: "nodeptr \<Rightarrow> string" where
  "parsetree_TagName node = (if parsetree_IsElement node then Data (hd node) else [])"

fun Text_loop :: "nodeptr \<Rightarrow> string" and parsetree_Text :: "nodeptr \<Rightarrow> string" where
  "Text_loop [] = []"
| "Text_loop (c # next) =
     (if parsetree_IsText (c # next) then Data c else [])
     @ (if parsetree_IsElement (c # next) then parsetree_Text (c # next) else [])
     @ Text_loop next"
| "parsetree_Text [] = []"
| "parsetree_Text (Node t d a cs # next) = Text_loop cs"

text \<open>
  Html renders the nodes into one buffer; a nil node is skipped, and the first rendering
  error discards the buffer.
\<close>

fun Html_loop :: "env \<Rightarrow> nodeptr list \<Rightarrow> string \<Rightarrow> string \<times> error option" where
  "Html_loop L [] buffer = (buffer, None)"
| "Html_loop L (node # nodes) buffer =
     (if node \<noteq> [] then
        (case html_Render L (hd node) of
           Inl err \<Rightarrow> ([], Some err)
         | Inr written \<Rightarrow> Html_loop L nodes (buffer @ written))
      else Html_loop L nodes buffer)"

definition parsetree_Html :: "env \<Rightarrow> nodeptr list \<Rightarrow> string \<times> error option" where
  "parsetree_Html L nodes = Html_loop L nodes []"

section \<open>Package book: chapters\<close>

text \<open>
  The closure that getPrefix returns owns three counters. It is modelled by the record of
  the counters; calling the closure on a heading returns the prefix and the counters
  after the call.
\<close>

record prefix_closure =
  h1Counter :: int
  h2Counter :: int
  h3Counter :: int

definition getPrefix :: prefix_closure where
  "getPrefix = \<lparr>h1Counter = 0, h2Counter = 0, h3Counter = 0\<rparr>"

definition prefix_call :: "prefix_closure \<Rightarrow> nodeptr \<Rightarrow> string \<times> prefix_closure" where
  "prefix_call prefix heading =
     (let tagName = parsetree_TagName heading in
      if tagName = ''h1'' then
        (let prefix = prefix\<lparr>h1Counter := h1Counter prefix + 1\<rparr>;
             prefix = prefix\<lparr>h2Counter := 0\<rparr>
         in (Sprintf_d (h1Counter prefix), prefix))
      else if tagName = ''h2'' then
        (let prefix = prefix\<lparr>h2Counter := h2Counter prefix + 1\<rparr>;
             prefix = prefix\<lparr>h3Counter := 0\<rparr>
         in (Sprintf_d (h1Counter prefix) @ ''.'' @ Sprintf_d (h2Counter prefix), prefix))
      else if tagName = ''h3'' then
        (let prefix = prefix\<lparr>h3Counter := h3Counter prefix + 1\<rparr>
         in (Sprintf_d (h1Counter prefix) @ ''.'' @ Sprintf_d (h2Counter prefix)
               @ ''.'' @ Sprintf_d (h3Counter prefix), prefix))
      else ([], prefix))"

text \<open>
  The loop of Chapters over the headings: the index, the counters of the prefix closure
  and the chapters appended so far are its state. Every early return hands back the
  chapters appended so far together with the error.
\<close>

fun Chapters_loop ::
  "env \<Rightarrow> nodeptr list \<Rightarrow> int \<Rightarrow> prefix_closure \<Rightarrow> Chapter list
     \<Rightarrow> panic + (Chapter list \<times> error option)" where
  "Chapters_loop L [] index prefix chapters = Inr (chapters, None)"
| "Chapters_loop L (heading # headings) index prefix chapters =
     (let id = index + 1;
          path = ''page'' @ Sprintf_d id @ ''.html''
      in case parsetree_HeadingLevel heading of
           Inl p \<Rightarrow> Inl p
         | Inr (level, Some err) \<Rightarrow> Inr (chapters, Some err)
         | Inr (level, None) \<Rightarrow>
             (let headingText = parsetree_Text heading;
                  headingText = strings_Join (strings_Fields L headingText) '' ''
              in case parsetree_Html L (parsetree_Children heading) of
                   (headingHtml, Some err) \<Rightarrow> Inr (chapters, Some err)
                 | (headingHtml, None) \<Rightarrow>
                     (let content = parsetree_SiblingsUntilFunc heading (Some parsetree_IsHeading)
                      in case parsetree_Html L content of
                           (contentHtml, Some err) \<Rightarrow> Inr (chapters, Some err)
                         | (contentHtml, None) \<Rightarrow>
                             (let (pre, prefix') = prefix_call prefix heading;
                                  chapter =
                                    \<lparr>Id = id, Level = level, Path = path,
                                     Title = \<lparr>Prefix = pre, Title.Html = headingHtml,
                                              Text = headingText\<rparr>,
                                     Content = \<lparr>Content.Html = contentHtml\<rparr>\<rparr>
                              in Chapters_loop L headings (index + 1) prefix'
                                   (chapters @ [chapter])))))"

definition Chapters :: "env \<Rightarrow> nodeptr \<Rightarrow> panic + (Chapter list \<times> error option)" where
  "Chapters L body =
     (if \<not> parsetree_IsBody body
      then Inr ([], Some (Error ''passed HTML node is not a 'body' element''))
      else Chapters_loop L (parsetree_Headings body) 0 getPrefix [])"

section \<open>Package book: pages\<close>

text \<open>
  The loops of the hierarchy resolver run over an index into the slice of chapters. Each
  read \<^verbatim>\<open>chapters[index]\<close> is inside the bounds by the loop condition: the index starts at
  0 or one past the position of the chapter and moves by one.
\<close>

function getParents_loop ::
  "Chapter \<Rightarrow> Chapter list \<Rightarrow> int \<Rightarrow> Chapter option list \<Rightarrow> panic + Chapter option list" where
  "getParents_loop chapter chapters index parents =
     (if index < slices_Index chapters chapter then
        (let current = chapters ! nat index;
             isParent = (Level current < Level chapter)
         in if isParent then
              (case slices_Insert parents current (Level current - 1) of
                 Inl p \<Rightarrow> Inl p
               | Inr parents' \<Rightarrow> getParents_loop chapter chapters (index + 1) parents')
            else getParents_loop chapter chapters (index + 1) parents)
      else Inr parents)"
  by pat_completeness auto
termination
  by (relation "measure (\<lambda>(chapter, chapters, index, parents).
        nat (slices_Index chapters chapter - index))") auto

definition getParents :: "Chapter \<Rightarrow> Chapter list \<Rightarrow> panic + Chapter option list" where
  "getParents chapter chapters = getParents_loop chapter chapters 0 []"

function getNext_loop :: "Chapter \<Rightarrow> Chapter list \<Rightarrow> int \<Rightarrow> Chapter option" where
  "getNext_loop chapter chapters index =
     (if index < int (length chapters) then
        (let next = chapters ! nat index in
         if Level next = Level chapter then Some next
         else (let isNoLongerInCurrentChapter = (Level next < Level chapter) in
               if isNoLongerInCurrentChapter then None
               else getNext_loop chapter chapters (index + 1)))
      else None)"
  by pat_completeness auto
termination
  by (relation "measure (\<lambda>(chapter, chapters, index). nat (int (length chapters) - index))") auto

definition getNext :: "Chapter \<Rightarrow> Chapter list \<Rightarrow> Chapter option" where
  "getNext chapter chapters =
     (let nextIndex = slices_Index chapters chapter + 1
      in getNext_loop chapter chapters nextIndex)"

function getPrevious_loop :: "Chapter \<Rightarrow> Chapter list \<Rightarrow> int \<Rightarrow> Chapter option" where
  "getPrevious_loop chapter chapters index =
     (if index \<ge> 0 then
        (let previous = chapters ! nat index in
         if Level previous = Level chapter then Some previous
         else (let isNoLongerInCurrentChapter = (Level previous < Level chapter) in
               if isNoLongerInCurrentChapter then None
               else getPrevious_loop chapter chapters (index - 1)))
      else None)"
  by pat_completeness auto
termination
  by (relation "measure (\<lambda>(chapter, chapters, index). nat (index + 1))") auto

definition getPrevious :: "Chapter \<Rightarrow> Chapter list \<Rightarrow> Chapter option" where
  "getPrevious chapter chapters =
     (let previousIndex = slices_Index chapters chapter - 1
      in getPrevious_loop chapter chapters previousIndex)"

function getChildren_loop ::
  "Chapter \<Rightarrow> Chapter list \<Rightarrow> int \<Rightarrow> Chapter list \<Rightarrow> Chapter list" where
  "getChildren_loop chapter chapters index children =
     (if index < int (length chapters) then
        (let current = chapters ! nat index;
             isChild = (Level current = Level chapter + 1);
             isConsidered = (Level current \<le> 3);
             children = (if isChild \<and> isConsidered then children @ [current] else children);
             isNoLongerInCurrentChapter = (Level current \<le> Level chapter)
         in if isNoLongerInCurrentChapter then children
            else getChildren_loop chapter chapters (index + 1) children)
      else children)"
  by pat_completeness auto
termination
  by (relation "measure (\<lambda>(chapter, chapters, index, children).
        nat (int (length chapters) - index))") auto

definition getChildren :: "Chapter \<Rightarrow> Chapter list \<Rightarrow> Chapter list" where
  "getChildren chapter chapters =
     (let nextChapterIndex = slices_Index chapters chapter + 1
      in getChildren_loop chapter chapters nextChapterIndex [])"

fun Pages_loop :: "Chapter list \<Rightarrow> Chapter list \<Rightarrow> Page list \<Rightarrow> panic + Page list" where
  "Pages_loop [] chapters pages = Inr pages"
| "Pages_loop (chapter # rest) chapters pages =
     (let next = getNext chapter chapters;
          hasNext = (next \<noteq> None);
          previous = getPrevious chapter chapters;
          hasPrevious = (previous \<noteq> None)
      in case getParents chapter chapters of
           Inl p \<Rightarrow> Inl p
         | Inr parents \<Rightarrow>
             (let hasParents = (\<not> slices_IsEmpty parents);
                  children = getChildren chapter chapters;
                  hasChildren = (\<not> slices_IsEmpty children);
                  page =
                    \<lparr>Id = Id chapter, Level = Level chapter, Path = Path chapter,
                     Title = Title chapter, Content = Content chapter,
                     Next = next, HasNext = hasNext,
                     Previous = previous, HasPrevious = hasPrevious,
                     Parents = parents, HasParents = hasParents,
                     Children = children, HasChildren = hasChildren\<rparr>
              in Pages_loop rest chapters (pages @ [page])))"

definition Pages :: "env \<Rightarrow> nodeptr \<Rightarrow> panic + (Page list \<times> error option)" where
  "Pages L body =
     (if \<not> parsetree_IsBody body
      then Inr ([], Some (Error ''passed HTML node is not a 'body' element''))
      else case Chapters L body of
             Inl p \<Rightarrow> Inl p
           | Inr (chapters, Some err) \<Rightarrow> Inr ([], Some err)
           | Inr (chapters, None) \<Rightarrow>
               (case Pages_loop chapters chapters [] of
                  Inl p \<Rightarrow> Inl p
                | Inr pages \<Rightarrow> Inr (pages, None)))"

section \<open>Package book: cross-references\<close>











section \<open>Notions of the specification\<close>

text \<open>
  The numbering of the specification, in its own words: three counters, one per level 1,
  2 and 3, updated as the levels of the headings are visited in order. A level-1 heading
  increments the first counter and resets the second; a level-2 heading increments the
  second and resets the third; a level-3 heading increments the third; any other level
  gets the empty prefix.
\<close>

fun spec_numbering :: "int \<times> int \<times> int \<Rightarrow> int list \<Rightarrow> string list" where
  "spec_numbering (c1, c2, c3) [] = []"
| "spec_numbering (c1, c2, c3) (level # levels) =
     (if level = 1 then
        Sprintf_d (c1 + 1) # spec_numbering (c1 + 1, 0, c3) levels
      else if level = 2 then
        (Sprintf_d c1 @ ''.'' @ Sprintf_d (c2 + 1)) # spec_numbering (c1, c2 + 1, 0) levels
      else if level = 3 then
        (Sprintf_d c1 @ ''.'' @ Sprintf_d c2 @ ''.'' @ Sprintf_d (c3 + 1))
          # spec_numbering (c1, c2, c3 + 1) levels
      else [] # spec_numbering (c1, c2, c3) levels)"

text \<open>The pointers to the nodes of a sibling chain, in document order.\<close>

fun child_pointers :: "nodeptr \<Rightarrow> nodeptr list" where
  "child_pointers [] = []"
| "child_pointers (c # next) = (c # next) # child_pointers next"

text \<open>
  The pointers to the nodes of a sibling chain and to everything below them, in document
  order; and the heading elements within a body as the specification describes them:
  direct children of the body or nested deeper.
\<close>

fun descendant_pointers :: "nodeptr \<Rightarrow> nodeptr list" where
  "descendant_pointers [] = []"
| "descendant_pointers (Node t d a cs # next) =
     (Node t d a cs # next) # descendant_pointers cs @ descendant_pointers next"

definition spec_Headings :: "nodeptr \<Rightarrow> nodeptr list" where
  "spec_Headings body =
     (case body of
        [] \<Rightarrow> []
      | b # next \<Rightarrow> filter parsetree_IsHeading (descendant_pointers (FirstChild b)))"

text \<open>
  The ancestor slots of the specification. Among the chapters that precede a chapter S,
  the candidates for slot k are those whose level is k + 1 and strictly below the level
  of S; the slot holds the last of them, and nil when there is none.
\<close>

definition last_candidate :: "Chapter list \<Rightarrow> Chapter \<Rightarrow> nat \<Rightarrow> Chapter option" where
  "last_candidate preceding S k =
     (case filter (\<lambda>c. Level c < Level S \<and> Level c = int k + 1) preceding of
        [] \<Rightarrow> None
      | y # ys \<Rightarrow> Some (last (y # ys)))"

text \<open>
  A list of parents agrees with the slots when every position holds its slot, no slot at
  or beyond the length of the list has a candidate, and the list is empty or ends in an
  occupied slot.
\<close>

definition parents_of :: "Chapter list \<Rightarrow> Chapter \<Rightarrow> Chapter option list \<Rightarrow> bool" where
  "parents_of preceding S parents \<longleftrightarrow>
     (\<forall>k < length parents. parents ! k = last_candidate preceding S k)
   \<and> (\<forall>k \<ge> length parents. last_candidate preceding S k = None)
   \<and> (parents = [] \<or> last parents \<noteq> None)"

section \<open>Derived notions\<close>

text \<open>The chapter that one iteration of the loop of Chapters appends.\<close>

definition new_chapter ::
  "env \<Rightarrow> int \<Rightarrow> prefix_closure \<Rightarrow> nodeptr \<Rightarrow> int \<Rightarrow> string \<Rightarrow> string \<Rightarrow> Chapter" where
  "new_chapter L index c h level headingHtml contentHtml =
     \<lparr>Id = index + 1, Level = level, Path = ''page'' @ Sprintf_d (index + 1) @ ''.html'',
      Title = \<lparr>Prefix = fst (prefix_call c h), Title.Html = headingHtml,
               Text = strings_Join (strings_Fields L (parsetree_Text h)) '' ''\<rparr>,
      Content = \<lparr>Content.Html = contentHtml\<rparr>\<rparr>"






section \<open>Concrete library functions and documents for the examples\<close>

text \<open>
  The examples instantiate the library parameters: a serializer that writes elements,
  text and comments without escaping, a parser that knows the markup of a given table of
  documents, an unescaping function that follows \<^verbatim>\<open>url.QueryUnescape\<close> (a percent sign
  needs two hexadecimal digits after it, a plus sign becomes a space), and a splitting
  function that follows \<^verbatim>\<open>strings.Fields\<close> on ASCII white space.
\<close>

fun render_attributes :: "Attribute list \<Rightarrow> string" where
  "render_attributes [] = []"
| "render_attributes (a # rest) =
     '' '' @ Key a @ ''='' @ [CHR 0x22] @ Val a @ [CHR 0x22] @ render_attributes rest"

fun example_Render :: "Node \<Rightarrow> error + string"
  and render_chain :: "Node list \<Rightarrow> error + string" where
  "example_Render (Node t d a cs) =
     (if t = TextNode then Inr d
      else if t = ElementNode then
        (case render_chain cs of
           Inl err \<Rightarrow> Inl err
         | Inr inner \<Rightarrow> Inr (''<'' @ d @ render_attributes a @ ''>'' @ inner @ ''</'' @ d @ ''>''))
      else if t = DocumentNode then render_chain cs
      else if t = CommentNode then Inr (''<!--'' @ d @ ''-->'')
      else Inl (Error ''html: cannot render this node''))"
| "render_chain [] = Inr []"
| "render_chain (n # ns) =
     (case example_Render n of
        Inl err \<Rightarrow> Inl err
      | Inr s \<Rightarrow> (case render_chain ns of Inl err \<Rightarrow> Inl err | Inr rest \<Rightarrow> Inr (s @ rest)))"

definition ishex :: "char \<Rightarrow> bool" where
  "ishex c = (c \<in> set ''0123456789abcdefABCDEF'')"

definition unhex :: "char \<Rightarrow> nat" where
  "unhex c =
     (if c \<in> set ''0123456789'' then of_char c - 48
      else if c \<in> set ''abcdef'' then of_char c - 97 + 10
      else if c \<in> set ''ABCDEF'' then of_char c - 65 + 10
      else 0)"

fun example_QueryUnescape :: "string \<Rightarrow> error + string" where
  "example_QueryUnescape [] = Inr []"
| "example_QueryUnescape (c # s) =
     (if c = CHR ''%'' then
        (case s of
           a # b # rest \<Rightarrow>
             (if ishex a \<and> ishex b then
                (case example_QueryUnescape rest of
                   Inl err \<Rightarrow> Inl err
                 | Inr t \<Rightarrow> Inr (char_of (unhex a * 16 + unhex b) # t))
              else Inl (Error ''invalid URL escape''))
         | _ \<Rightarrow> Inl (Error ''invalid URL escape''))
      else
        (case example_QueryUnescape s of
           Inl err \<Rightarrow> Inl err
         | Inr t \<Rightarrow> Inr ((if c = CHR ''+'' then CHR '' '' else c) # t)))"

definition isSpace :: "char \<Rightarrow> bool" where
  "isSpace c = (c \<in> set [CHR '' '', CHR 0x09, CHR 0x0A, CHR 0x0B, CHR 0x0C, CHR 0x0D])"

fun Fields_loop :: "string \<Rightarrow> string \<Rightarrow> string list" where
  "Fields_loop [] field = (if field = [] then [] else [field])"
| "Fields_loop (c # s) field =
     (if isSpace c then (if field = [] then Fields_loop s [] else field # Fields_loop s [])
      else Fields_loop s (field @ [c]))"

definition example_Fields :: "string \<Rightarrow> string list" where
  "example_Fields s = Fields_loop s []"

definition example_Parse :: "(string \<times> Node) list \<Rightarrow> string \<Rightarrow> error + Node" where
  "example_Parse documents s =
     (case map_of documents s of
        Some tree \<Rightarrow> Inr tree
      | None \<Rightarrow> Inl (Error ''unknown document''))"

definition example_env :: "(string \<times> Node) list \<Rightarrow> env" where
  "example_env documents =
     \<lparr>html_Parse = example_Parse documents, html_Render = example_Render,
      url_QueryUnescape = example_QueryUnescape, strings_Fields = example_Fields\<rparr>"

definition html_element :: "string \<Rightarrow> Attribute list \<Rightarrow> Node list \<Rightarrow> Node" where
  "html_element tag attrs children = Node ElementNode tag attrs children"

definition html_text :: "string \<Rightarrow> Node" where
  "html_text s = Node TextNode s [] []"

text \<open>A body with the headings h1, h2, h3, h1, h3.\<close>

definition numbering_body :: nodeptr where
  "numbering_body =
     [html_element ''body'' []
        [html_element ''h1'' [] [html_text ''A''], html_element ''h2'' [] [html_text ''B''],
         html_element ''h3'' [] [html_text ''C''], html_element ''h1'' [] [html_text ''D''],
         html_element ''h3'' [] [html_text ''E'']]]"

text \<open>A body whose only heading is nested inside a div.\<close>

definition nested_body :: nodeptr where
  "nested_body =
     [html_element ''body'' []
        [html_element ''div'' [] [html_element ''h1'' [] [html_text ''Nested'']]]]"

text \<open>
  A body with two headings among its children, a paragraph between them and a third
  heading nested inside a div.
\<close>

definition sections_body :: nodeptr where
  "sections_body =
     [html_element ''body'' []
        [html_element ''h1'' [] [html_text ''Getting  Started''],
         html_element ''p'' [] [html_text ''Intro.'']
         , html_element ''div'' [] [html_element ''h2'' [] [html_text ''Nested'']]
         , html_element ''h2'' [] [html_text ''Install'']]]"

text \<open>
  A body whose children are an h1, an element with the tag h7, a text node that reads
  h2, and an h6.
\<close>

definition levels_body :: nodeptr where
  "levels_body =
     [html_element ''body'' []
        [html_element ''h1'' [] [html_text ''One''], html_element ''h7'' [] [html_text ''Seven''],
         html_text ''h2'', html_element ''h6'' [] [html_text ''Six'']]]"

text \<open>A body with ten headings of the levels 1, 2, 3, 2, 1, 3, 2, 4, 3, 4.\<close>

definition hierarchy_body :: nodeptr where
  "hierarchy_body =
     [html_element ''body'' []
        [html_element ''h1'' [] [html_text ''A''], html_element ''h2'' [] [html_text ''B''],
         html_element ''h3'' [] [html_text ''C''], html_element ''h2'' [] [html_text ''D''],
         html_element ''h1'' [] [html_text ''E''], html_element ''h3'' [] [html_text ''F''],
         html_element ''h2'' [] [html_text ''G''], html_element ''h4'' [] [html_text ''H''],
         html_element ''h3'' [] [html_text ''I''], html_element ''h4'' [] [html_text ''J'']]]"

text \<open>A body that starts with an h2, followed by an h3.\<close>

definition sparse_body :: nodeptr where
  "sparse_body =
     [html_element ''body'' []
        [html_element ''h2'' [] [html_text ''A''], html_element ''h3'' [] [html_text ''B'']]]"










section \<open>Properties of the section extractor\<close>

lemma HeadingMap_Some:
  "parsetree_HeadingMap d = Some l \<longleftrightarrow>
     (d = ''h1'' \<and> l = 1) \<or> (d = ''h2'' \<and> l = 2) \<or> (d = ''h3'' \<and> l = 3) \<or>
     (d = ''h4'' \<and> l = 4) \<or> (d = ''h5'' \<and> l = 5) \<or> (d = ''h6'' \<and> l = 6)"
  by (auto simp: parsetree_HeadingMap_def)

lemma IsHeading_iff:
  "parsetree_IsHeading h \<longleftrightarrow>
     h \<noteq> [] \<and> Type (hd h) = ElementNode \<and> parsetree_HeadingMap (Data (hd h)) \<noteq> None"
  by (simp add: parsetree_IsHeading_def parsetree_IsElementFunc_def parsetree_IsElement_def
      parsetree_IsNil_def)

lemma IsHeading_HeadingLevel:
  assumes "parsetree_IsHeading h"
  shows "\<exists>level. parsetree_HeadingLevel h = Inr (level, None) \<and> 1 \<le> level \<and> level \<le> 6"
proof -
  from assms obtain n next' where h: "h = n # next'"
    by (cases h) (auto simp: IsHeading_iff)
  from assms h obtain l where l: "parsetree_HeadingMap (Data n) = Some l"
    by (auto simp: IsHeading_iff)
  then have "1 \<le> l \<and> l \<le> 6"
    by (auto simp: HeadingMap_Some)
  with h l show ?thesis
    by (simp add: parsetree_HeadingLevel_def)
qed

lemma prefix_call_level:
  assumes "parsetree_IsHeading h" and "parsetree_HeadingLevel h = Inr (level, None)"
  shows "prefix_call c h =
     (if level = 1 then
        (Sprintf_d (h1Counter c + 1), c\<lparr>h1Counter := h1Counter c + 1, h2Counter := 0\<rparr>)
      else if level = 2 then
        (Sprintf_d (h1Counter c) @ ''.'' @ Sprintf_d (h2Counter c + 1),
         c\<lparr>h2Counter := h2Counter c + 1, h3Counter := 0\<rparr>)
      else if level = 3 then
        (Sprintf_d (h1Counter c) @ ''.'' @ Sprintf_d (h2Counter c) @ ''.''
           @ Sprintf_d (h3Counter c + 1),
         c\<lparr>h3Counter := h3Counter c + 1\<rparr>)
      else ([], c))"
proof -
  from assms(1) obtain n next' where h: "h = n # next'" and el: "Type n = ElementNode"
    by (cases h) (auto simp: IsHeading_iff)
  from assms(2) h have "parsetree_HeadingMap (Data n) = Some level"
    by (auto simp: parsetree_HeadingLevel_def split: option.splits)
  then have "(Data n = ''h1'' \<and> level = 1) \<or> (Data n = ''h2'' \<and> level = 2) \<or> (Data n = ''h3'' \<and> level = 3) \<or>
     (Data n = ''h4'' \<and> level = 4) \<or> (Data n = ''h5'' \<and> level = 5) \<or> (Data n = ''h6'' \<and> level = 6)"
    by (simp only: HeadingMap_Some)
  moreover have "parsetree_TagName h = Data n"
    using h el by (simp add: parsetree_TagName_def parsetree_IsElement_def parsetree_IsNil_def)
  ultimately show ?thesis
    by (auto simp: prefix_call_def Let_def)
qed

lemma ChildrenFunc_loop_filter:
  "ChildrenFunc_loop cs (Some p) = filter p (child_pointers cs)"
  by (induction cs) auto

lemma Headings_filter:
  "parsetree_Headings (b # next) = filter parsetree_IsHeading (child_pointers (FirstChild b))"
  by (simp add: parsetree_Headings_def parsetree_ChildrenFunc_def parsetree_IsNil_def
      ChildrenFunc_loop_filter)

lemma Headings_IsHeading: "h \<in> set (parsetree_Headings body) \<Longrightarrow> parsetree_IsHeading h"
  by (cases body) (auto simp: Headings_filter, simp add: parsetree_Headings_def parsetree_IsNil_def)

lemma Chapters_loop_step:
  assumes "parsetree_IsHeading h"
  obtains (stop) err where "Chapters_loop L (h # hs) index c chs = Inr (chs, Some err)"
  | (continue) level headingHtml contentHtml where
      "parsetree_HeadingLevel h = Inr (level, None)" "1 \<le> level" "level \<le> 6"
      "parsetree_Html L (parsetree_Children h) = (headingHtml, None)"
      "parsetree_Html L (parsetree_SiblingsUntilFunc h (Some parsetree_IsHeading)) = (contentHtml, None)"
      "Chapters_loop L (h # hs) index c chs =
         Chapters_loop L hs (index + 1) (snd (prefix_call c h))
           (chs @ [new_chapter L index c h level headingHtml contentHtml])"
proof -
  from IsHeading_HeadingLevel[OF assms] obtain level where
    lv: "parsetree_HeadingLevel h = Inr (level, None)" "1 \<le> level" "level \<le> 6" by blast
  obtain hh e1 where r1: "parsetree_Html L (parsetree_Children h) = (hh, e1)"
    by (cases "parsetree_Html L (parsetree_Children h)")
  obtain ch e2 where r2:
    "parsetree_Html L (parsetree_SiblingsUntilFunc h (Some parsetree_IsHeading)) = (ch, e2)"
    by (cases "parsetree_Html L (parsetree_SiblingsUntilFunc h (Some parsetree_IsHeading))")
  show thesis
  proof (cases e1)
    case (Some err)
    with lv r1 have "Chapters_loop L (h # hs) index c chs = Inr (chs, Some err)"
      by (simp add: Let_def)
    then show ?thesis by (rule stop)
  next
    case None
    note n1 = this
    show ?thesis
    proof (cases e2)
      case (Some err)
      with lv r1 r2 n1 have "Chapters_loop L (h # hs) index c chs = Inr (chs, Some err)"
        by (simp add: Let_def)
      then show ?thesis by (rule stop)
    next
      case None
      with lv r1 r2 n1 have
        "Chapters_loop L (h # hs) index c chs =
           Chapters_loop L hs (index + 1) (snd (prefix_call c h))
             (chs @ [new_chapter L index c h level hh ch])"
        by (simp add: Let_def new_chapter_def split_beta)
      with lv r1 r2 n1 None show ?thesis
        by (intro continue[of level hh ch]) simp_all
    qed
  qed
qed


lemma Chapters_loop_result:
  assumes "\<forall>h \<in> set hs. parsetree_IsHeading h"
  shows "\<exists>new err. Chapters_loop L hs index c chs = Inr (chs @ new, err)
     \<and> length new \<le> length hs \<and> (err = None \<longrightarrow> length new = length hs)
     \<and> (\<forall>k < length new.
           Id (new ! k) = index + 1 + int k
         \<and> Path (new ! k) = ''page'' @ Sprintf_d (index + 1 + int k) @ ''.html''
         \<and> parsetree_HeadingLevel (hs ! k) = Inr (Level (new ! k), None)
         \<and> Text (Title (new ! k)) = strings_Join (strings_Fields L (parsetree_Text (hs ! k))) '' '')
     \<and> map (\<lambda>ch. Prefix (Title ch)) new
         = spec_numbering (h1Counter c, h2Counter c, h3Counter c) (map Level new)"
  using assms
proof (induction hs arbitrary: index c chs)
  case Nil
  then show ?case by simp
next
  case (Cons h hs)
  then have hd: "parsetree_IsHeading h" and tl: "\<forall>h \<in> set hs. parsetree_IsHeading h"
    by simp_all
  from hd show ?case
  proof (cases rule: Chapters_loop_step[where L = L and hs = hs and index = index and c = c and chs = chs])
    case (stop err)
    then show ?thesis by simp
  next
    case (continue level headingHtml contentHtml)
    define ch0 where "ch0 = new_chapter L index c h level headingHtml contentHtml"
    define c' where "c' = snd (prefix_call c h)"
    from Cons.IH[OF tl, of "index + 1" c' "chs @ [ch0]"]
    obtain new err where
      r: "Chapters_loop L hs (index + 1) c' (chs @ [ch0]) = Inr ((chs @ [ch0]) @ new, err)"
      and len: "length new \<le> length hs" "err = None \<longrightarrow> length new = length hs"
      and nth: "\<And>k. k < length new \<Longrightarrow>
           Id (new ! k) = index + 1 + 1 + int k
         \<and> Path (new ! k) = ''page'' @ Sprintf_d (index + 1 + 1 + int k) @ ''.html''
         \<and> parsetree_HeadingLevel (hs ! k) = Inr (Level (new ! k), None)
         \<and> Text (Title (new ! k)) = strings_Join (strings_Fields L (parsetree_Text (hs ! k))) '' ''"
      and pre: "map (\<lambda>ch. Prefix (Title ch)) new
         = spec_numbering (h1Counter c', h2Counter c', h3Counter c') (map Level new)"
      by blast
    have step: "prefix_call c h = (Prefix (Title ch0), c')"
      by (simp add: ch0_def c'_def new_chapter_def)
    have lev0: "Level ch0 = level" by (simp add: ch0_def new_chapter_def)
    have num: "Prefix (Title ch0) # spec_numbering (h1Counter c', h2Counter c', h3Counter c') ls
         = spec_numbering (h1Counter c, h2Counter c, h3Counter c) (level # ls)" for ls
      using prefix_call_level[OF hd continue(1), of c] step by (auto split: if_splits)
    have res: "Chapters_loop L (h # hs) index c chs = Inr (chs @ (ch0 # new), err)"
      using continue(6) r by (simp add: ch0_def c'_def)
    have nth0: "Id ch0 = index + 1 \<and> Path ch0 = ''page'' @ Sprintf_d (index + 1) @ ''.html''
         \<and> parsetree_HeadingLevel h = Inr (Level ch0, None)
         \<and> Text (Title ch0) = strings_Join (strings_Fields L (parsetree_Text h)) '' ''"
      using continue(1) by (simp add: ch0_def new_chapter_def)
    have nth': "Id ((ch0 # new) ! k) = index + 1 + int k
         \<and> Path ((ch0 # new) ! k) = ''page'' @ Sprintf_d (index + 1 + int k) @ ''.html''
         \<and> parsetree_HeadingLevel ((h # hs) ! k) = Inr (Level ((ch0 # new) ! k), None)
         \<and> Text (Title ((ch0 # new) ! k))
             = strings_Join (strings_Fields L (parsetree_Text ((h # hs) ! k))) '' ''"
      if "k < length (ch0 # new)" for k
    proof (cases k)
      case 0
      with nth0 show ?thesis by simp
    next
      case (Suc j)
      with that have "j < length new" by simp
      have eq: "index + 1 + 1 + int j = index + 1 + int (Suc j)" by simp
      from nth[OF \<open>j < length new\<close>] show ?thesis unfolding Suc eq by simp
    qed
    have "map (\<lambda>ch. Prefix (Title ch)) (ch0 # new)
         = spec_numbering (h1Counter c, h2Counter c, h3Counter c) (map Level (ch0 # new))"
      using pre num[of "map Level new"] lev0 by simp
    with res len nth' show ?thesis
      by (intro exI[of _ "ch0 # new"] exI[of _ err]) simp
  qed
qed

declare decimal.simps [simp del]

lemma decimal_nonempty: "decimal n \<noteq> []"
  by (subst decimal.simps) simp

lemma digit_inj:
  assumes "a < 10" "b < 10" "''0123456789'' ! a = ''0123456789'' ! b"
  shows "a = b"
proof -
  have "distinct ''0123456789''" by simp
  moreover have "a < length ''0123456789''" "b < length ''0123456789''" using assms by simp_all
  ultimately show ?thesis using assms(3) by (simp only: nth_eq_iff_index_eq)
qed

lemma decimal_inj: "decimal n = decimal m \<Longrightarrow> n = m"
proof (induction n arbitrary: m rule: decimal.induct)
  case (1 n)
  show ?case
  proof (cases "n < 10")
    case True
    then have n: "decimal n = [''0123456789'' ! n]" by (subst decimal.simps) simp
    show ?thesis
    proof (cases "m < 10")
      case True
      then have "decimal m = [''0123456789'' ! m]" by (subst decimal.simps) simp
      with n 1(2) \<open>n < 10\<close> True show ?thesis by (auto intro: digit_inj)
    next
      case False
      then have "decimal m = decimal (m div 10) @ [''0123456789'' ! (m mod 10)]"
        by (subst decimal.simps) simp
      with n 1(2) decimal_nonempty[of "m div 10"] show ?thesis by (cases "decimal (m div 10)") auto
    qed
  next
    case False
    then have n: "decimal n = decimal (n div 10) @ [''0123456789'' ! (n mod 10)]"
      by (subst decimal.simps) simp
    show ?thesis
    proof (cases "m < 10")
      case True
      then have "decimal m = [''0123456789'' ! m]" by (subst decimal.simps) simp
      with n 1(2) decimal_nonempty[of "n div 10"] show ?thesis by (cases "decimal (n div 10)") auto
    next
      case False
      then have m: "decimal m = decimal (m div 10) @ [''0123456789'' ! (m mod 10)]"
        by (subst decimal.simps) simp
      from n m 1(2) have eq: "decimal (n div 10) = decimal (m div 10)"
        and dg: "''0123456789'' ! (n mod 10) = ''0123456789'' ! (m mod 10)" by simp_all
      from 1(1)[OF \<open>\<not> n < 10\<close> eq] have d: "n div 10 = m div 10" .
      have "n mod 10 = m mod 10" by (rule digit_inj[OF _ _ dg]) simp_all
      with d show ?thesis by (metis div_mult_mod_eq)
    qed
  qed
qed

lemma page_path_inj:
  "''page'' @ Sprintf_d (int i + 1) @ ''.html'' = ''page'' @ Sprintf_d (int j + 1) @ ''.html'' \<Longrightarrow> i = j"
proof -
  assume "''page'' @ Sprintf_d (int i + 1) @ ''.html'' = ''page'' @ Sprintf_d (int j + 1) @ ''.html''"
  then have "decimal (nat (int i + 1)) = decimal (nat (int j + 1))"
    by (simp add: Sprintf_d_def)
  then have "nat (int i + 1) = nat (int j + 1)" by (rule decimal_inj)
  then show "i = j" by simp
qed

lemma Chapters_cases:
  obtains (not_body) "\<not> parsetree_IsBody body"
      "Chapters L body = Inr ([], Some (Error ''passed HTML node is not a 'body' element''))"
  | (body) new err where "parsetree_IsBody body"
      "Chapters L body = Inr (new, err)"
      "length new \<le> length (parsetree_Headings body)"
      "err = None \<longrightarrow> length new = length (parsetree_Headings body)"
      "\<And>k. k < length new \<Longrightarrow>
           Id (new ! k) = int k + 1
         \<and> Path (new ! k) = ''page'' @ Sprintf_d (int k + 1) @ ''.html''
         \<and> parsetree_HeadingLevel (parsetree_Headings body ! k) = Inr (Level (new ! k), None)
         \<and> Text (Title (new ! k))
             = strings_Join (strings_Fields L (parsetree_Text (parsetree_Headings body ! k))) '' ''"
      "map (\<lambda>ch. Prefix (Title ch)) new = spec_numbering (0, 0, 0) (map Level new)"
proof (cases "parsetree_IsBody body")
  case False
  then show ?thesis by (intro not_body) (simp_all add: Chapters_def)
next
  case True
  have hs: "\<forall>h \<in> set (parsetree_Headings body). parsetree_IsHeading h"
    by (simp add: Headings_IsHeading)
  from Chapters_loop_result[OF hs, of L 0 getPrefix "[]"]
  obtain new err where
    r: "Chapters_loop L (parsetree_Headings body) 0 getPrefix [] = Inr ([] @ new, err)"
    and len: "length new \<le> length (parsetree_Headings body)"
             "err = None \<longrightarrow> length new = length (parsetree_Headings body)"
    and nth: "\<forall>k < length new.
           Id (new ! k) = 0 + 1 + int k
         \<and> Path (new ! k) = ''page'' @ Sprintf_d (0 + 1 + int k) @ ''.html''
         \<and> parsetree_HeadingLevel (parsetree_Headings body ! k) = Inr (Level (new ! k), None)
         \<and> Text (Title (new ! k))
             = strings_Join (strings_Fields L (parsetree_Text (parsetree_Headings body ! k))) '' ''"
    and pre: "map (\<lambda>ch. Prefix (Title ch)) new
         = spec_numbering (h1Counter getPrefix, h2Counter getPrefix, h3Counter getPrefix) (map Level new)"
    by blast
  have e: "0 + 1 + int k = int k + 1" for k by simp
  show ?thesis
  proof (rule body[of new err])
    show "parsetree_IsBody body" by fact
    show "Chapters L body = Inr (new, err)" using True r by (simp add: Chapters_def)
    show "length new \<le> length (parsetree_Headings body)" by fact
    show "err = None \<longrightarrow> length new = length (parsetree_Headings body)" by fact
    show "Id (new ! k) = int k + 1
         \<and> Path (new ! k) = ''page'' @ Sprintf_d (int k + 1) @ ''.html''
         \<and> parsetree_HeadingLevel (parsetree_Headings body ! k) = Inr (Level (new ! k), None)
         \<and> Text (Title (new ! k))
             = strings_Join (strings_Fields L (parsetree_Text (parsetree_Headings body ! k))) '' ''"
      if "k < length new" for k
      using nth that unfolding e by blast
    show "map (\<lambda>ch. Prefix (Title ch)) new = spec_numbering (0, 0, 0) (map Level new)"
      using pre by (simp add: getPrefix_def)
  qed
qed

lemma Html_loop_total:
  assumes "\<forall>n. \<exists>s. html_Render L n = Inr s"
  shows "\<exists>html. Html_loop L nodes buffer = (html, None)"
proof (induction nodes arbitrary: buffer)
  case Nil
  then show ?case by simp
next
  case (Cons node nodes)
  from assms obtain s where "html_Render L (hd node) = Inr s" by blast
  with Cons show ?case by simp
qed

lemma Chapters_loop_total:
  assumes "\<forall>n. \<exists>s. html_Render L n = Inr s" and "\<forall>h \<in> set hs. parsetree_IsHeading h"
  shows "\<exists>chapters. Chapters_loop L hs index c chs = Inr (chapters, None)"
  using assms(2)
proof (induction hs arbitrary: index c chs)
  case Nil
  then show ?case by simp
next
  case (Cons h hs)
  then have hd: "parsetree_IsHeading h" and tl: "\<forall>h \<in> set hs. parsetree_IsHeading h"
    by simp_all
  from IsHeading_HeadingLevel[OF hd] obtain level where
    lv: "parsetree_HeadingLevel h = Inr (level, None)" by blast
  from Html_loop_total[OF assms(1)] obtain hh where
    r1: "parsetree_Html L (parsetree_Children h) = (hh, None)"
    unfolding parsetree_Html_def by blast
  from Html_loop_total[OF assms(1)] obtain ch where
    r2: "parsetree_Html L (parsetree_SiblingsUntilFunc h (Some parsetree_IsHeading)) = (ch, None)"
    unfolding parsetree_Html_def by blast
  from lv r1 r2 Cons.IH[OF tl] show ?case
    by (simp add: Let_def split_beta)
qed

lemma Chapters_total:
  assumes "\<forall>n. \<exists>s. html_Render L n = Inr s" and "parsetree_IsBody body"
  shows "\<exists>chapters. Chapters L body = Inr (chapters, None)"
  using assms Chapters_loop_total[of L "parsetree_Headings body" 0 getPrefix "[]"]
  by (simp add: Chapters_def Headings_IsHeading)

lemma distinct_page_paths:
  assumes "\<And>k. k < length chs \<Longrightarrow> Path (chs ! k) = ''page'' @ Sprintf_d (int k + 1) @ ''.html''"
  shows "distinct (map Path chs)"
proof (subst distinct_conv_nth, intro allI impI)
  fix i j
  assume i: "i < length (map Path chs)" and j: "j < length (map Path chs)" and ne: "i \<noteq> j"
  show "map Path chs ! i \<noteq> map Path chs ! j"
  proof
    assume "map Path chs ! i = map Path chs ! j"
    with i j assms[of i] assms[of j]
    have "''page'' @ Sprintf_d (int i + 1) @ ''.html'' = ''page'' @ Sprintf_d (int j + 1) @ ''.html''"
      by simp
    then have "i = j" by (rule page_path_inj)
    with ne show False ..
  qed
qed

lemma Html_loop_error:
  "Html_loop L nodes buffer = (html, Some err) \<Longrightarrow> \<exists>n. html_Render L n = Inl err"
  by (induction nodes arbitrary: buffer) (auto split: if_splits sum.splits)

text \<open>An error that the loop of Chapters returns is an error of the serializer.\<close>

lemma Chapters_loop_error:
  assumes "\<forall>h \<in> set hs. parsetree_IsHeading h"
    and "Chapters_loop L hs index c chs = Inr (chs', Some err)"
  shows "\<exists>n. html_Render L n = Inl err"
  using assms
proof (induction hs arbitrary: index c chs)
  case Nil
  then show ?case by simp
next
  case (Cons h hs)
  then have hd: "parsetree_IsHeading h" and tl: "\<forall>h \<in> set hs. parsetree_IsHeading h"
    by simp_all
  from IsHeading_HeadingLevel[OF hd] obtain level where
    lv: "parsetree_HeadingLevel h = Inr (level, None)" by blast
  obtain hh e1 where r1: "parsetree_Html L (parsetree_Children h) = (hh, e1)"
    by (cases "parsetree_Html L (parsetree_Children h)")
  obtain ch e2 where r2:
    "parsetree_Html L (parsetree_SiblingsUntilFunc h (Some parsetree_IsHeading)) = (ch, e2)"
    by (cases "parsetree_Html L (parsetree_SiblingsUntilFunc h (Some parsetree_IsHeading))")
  show ?case
  proof (cases e1)
    case (Some e)
    with lv r1 Cons.prems(2) have "e = err" by (simp add: Let_def)
    with Some r1 show ?thesis
      using Html_loop_error[of L "parsetree_Children h" "[]" hh err]
      by (simp add: parsetree_Html_def)
  next
    case None
    note n1 = this
    show ?thesis
    proof (cases e2)
      case (Some e)
      with lv r1 r2 n1 Cons.prems(2) have "e = err" by (simp add: Let_def)
      with Some r2 show ?thesis
        using Html_loop_error[of L "parsetree_SiblingsUntilFunc h (Some parsetree_IsHeading)"
            "[]" ch err]
        by (simp add: parsetree_Html_def)
    next
      case None
      with lv r1 r2 n1 Cons.prems(2) obtain index' c' chs'' where
        "Chapters_loop L hs index' c' chs'' = Inr (chs', Some err)"
        by (simp add: Let_def split_beta)
      from Cons.IH[OF tl this] show ?thesis .
    qed
  qed
qed

lemma Chapters_error:
  assumes "Chapters L body = Inr (chapters, Some err)"
  shows "(\<not> parsetree_IsBody body \<and> chapters = []
          \<and> err = Error ''passed HTML node is not a 'body' element'')
       \<or> (\<exists>n. html_Render L n = Inl err)"
proof (cases "parsetree_IsBody body")
  case False
  with assms show ?thesis by (simp add: Chapters_def)
next
  case True
  with assms have "Chapters_loop L (parsetree_Headings body) 0 getPrefix [] = Inr (chapters, Some err)"
    by (simp add: Chapters_def)
  from Chapters_loop_error[OF _ this] show ?thesis by (simp add: Headings_IsHeading)
qed

section \<open>Properties of the hierarchy resolver\<close>

lemma Index_loop_nth:
  "distinct xs \<Longrightarrow> i < length xs \<Longrightarrow> Index_loop k xs (xs ! i) = k + int i"
proof (induction xs arbitrary: i k)
  case Nil
  then show ?case by simp
next
  case (Cons x xs)
  show ?case
  proof (cases i)
    case 0
    then show ?thesis by simp
  next
    case (Suc j)
    with Cons.prems have "xs ! j \<noteq> x" "j < length xs" "distinct xs" by auto
    with Cons.IH[of j "k + 1"] Suc show ?thesis by simp
  qed
qed

lemma slices_Index_nth:
  "distinct xs \<Longrightarrow> i < length xs \<Longrightarrow> slices_Index xs (xs ! i) = int i"
  by (simp add: slices_Index_def Index_loop_nth)

lemma Chapters_distinct:
  assumes "Chapters L body = Inr (chapters, err)"
  shows "distinct chapters"
proof -
  have ids: "Id (chapters ! k) = int k + 1" if "k < length chapters" for k
    using assms that by (cases rule: Chapters_cases[of body L]) auto
  have "distinct (map Id chapters)"
  proof (subst distinct_conv_nth, intro allI impI)
    fix i j
    assume "i < length (map Id chapters)" "j < length (map Id chapters)" "i \<noteq> j"
    with ids[of i] ids[of j] show "map Id chapters ! i \<noteq> map Id chapters ! j" by simp
  qed
  then show ?thesis by (simp add: distinct_map)
qed

lemma Chapters_levels:
  assumes "Chapters L body = Inr (chapters, err)" and "c \<in> set chapters"
  shows "1 \<le> Level c \<and> Level c \<le> 6"
proof -
  from assms(2) obtain k where k: "k < length chapters" "c = chapters ! k"
    by (auto simp: in_set_conv_nth)
  from assms(1) have h: "k < length (parsetree_Headings body)
      \<and> parsetree_HeadingLevel (parsetree_Headings body ! k) = Inr (Level c, None)"
  proof (cases rule: Chapters_cases[of body L])
    case not_body
    with k assms(1) show ?thesis by simp
  next
    case (body new err')
    with k assms(1) show ?thesis by auto
  qed
  then have "parsetree_Headings body ! k \<in> set (parsetree_Headings body)" by simp
  then have "parsetree_IsHeading (parsetree_Headings body ! k)" by (rule Headings_IsHeading)
  from IsHeading_HeadingLevel[OF this] h show ?thesis by auto
qed

declare getNext_loop.simps [simp del]
declare getPrevious_loop.simps [simp del]
declare getChildren_loop.simps [simp del]
declare getParents_loop.simps [simp del]

lemma getNext_loop_Some_iff:
  "0 \<le> index \<Longrightarrow>
   getNext_loop S cs index = Some n \<longleftrightarrow>
     (\<exists>j. nat index \<le> j \<and> j < length cs \<and> n = cs ! j \<and> Level (cs ! j) = Level S
        \<and> (\<forall>k. nat index \<le> k \<and> k < j \<longrightarrow> Level S < Level (cs ! k)))"
proof (induction S cs index rule: getNext_loop.induct)
  case (1 S cs index)
  let ?P = "\<lambda>i j. nat i \<le> j \<and> j < length cs \<and> n = cs ! j \<and> Level (cs ! j) = Level S
        \<and> (\<forall>k. nat i \<le> k \<and> k < j \<longrightarrow> Level S < Level (cs ! k))"
  show ?case
  proof (cases "index < int (length cs)")
    case False
    with 1(2) have "getNext_loop S cs index = None"
      by (subst getNext_loop.simps) simp
    moreover from False 1(2) have "\<not> (\<exists>j. ?P index j)" by auto
    ultimately show ?thesis by simp
  next
    case True
    note inb = this
    let ?c = "cs ! nat index"
    consider (eq) "Level ?c = Level S" | (lt) "Level ?c < Level S" | (gt) "Level S < Level ?c"
      by linarith
    then show ?thesis
    proof cases
      case eq
      with inb have r: "getNext_loop S cs index = Some ?c"
        by (subst getNext_loop.simps) (simp add: Let_def)
      have "(\<exists>j. ?P index j) \<longleftrightarrow> n = ?c"
      proof
        assume "\<exists>j. ?P index j"
        then obtain j where j: "?P index j" by blast
        have "j = nat index"
        proof (rule ccontr)
          assume "j \<noteq> nat index"
          with j have "nat index < j" by simp
          with j have "Level S < Level ?c" by simp
          with eq show False by simp
        qed
        with j show "n = ?c" by simp
      next
        assume "n = ?c"
        with eq inb 1(2) have "?P index (nat index)" by simp
        then show "\<exists>j. ?P index j" by blast
      qed
      with r show ?thesis by auto
    next
      case lt
      with inb have r: "getNext_loop S cs index = None"
        by (subst getNext_loop.simps) (simp add: Let_def)
      have "\<not> (\<exists>j. ?P index j)"
      proof
        assume "\<exists>j. ?P index j"
        then obtain j where j: "?P index j" by blast
        show False
        proof (cases "j = nat index")
          case True
          with j lt show False by simp
        next
          case False
          with j have "nat index < j" by simp
          with j have "Level S < Level ?c" by simp
          with lt show False by simp
        qed
      qed
      with r show ?thesis by simp
    next
      case gt
      with inb have r: "getNext_loop S cs index = getNext_loop S cs (index + 1)"
        by (subst getNext_loop.simps) (simp add: Let_def)
      from gt inb 1(2) have IH: "getNext_loop S cs (index + 1) = Some n \<longleftrightarrow> (\<exists>j. ?P (index + 1) j)"
        by (intro 1(1)[OF inb refl _ refl]) simp_all
      have nat1: "nat (index + 1) = Suc (nat index)" using 1(2) by simp
      have "(\<exists>j. ?P (index + 1) j) \<longleftrightarrow> (\<exists>j. ?P index j)"
      proof
        assume "\<exists>j. ?P (index + 1) j"
        then obtain j where j: "?P (index + 1) j" by blast
        have "Level S < Level (cs ! k)" if "nat index \<le> k \<and> k < j" for k
        proof (cases "k = nat index")
          case True
          with gt show ?thesis by simp
        next
          case False
          with that have "nat (index + 1) \<le> k \<and> k < j" unfolding nat1 by simp
          with j show ?thesis by blast
        qed
        with j have "?P index j" unfolding nat1 by simp
        then show "\<exists>j. ?P index j" by blast
      next
        assume "\<exists>j. ?P index j"
        then obtain j where j: "?P index j" by blast
        have "j \<noteq> nat index" using j gt by auto
        with j have "?P (index + 1) j" unfolding nat1 by simp
        then show "\<exists>j. ?P (index + 1) j" by blast
      qed
      with r IH show ?thesis by simp
    qed
  qed
qed

lemma getPrevious_loop_Some_iff:
  "getPrevious_loop S cs index = Some p \<longleftrightarrow>
     (\<exists>j. int j \<le> index \<and> p = cs ! j \<and> Level (cs ! j) = Level S
        \<and> (\<forall>k. j < k \<and> int k \<le> index \<longrightarrow> Level S < Level (cs ! k)))"
proof (induction S cs index rule: getPrevious_loop.induct)
  case (1 S cs index)
  let ?P = "\<lambda>i j. int j \<le> i \<and> p = cs ! j \<and> Level (cs ! j) = Level S
        \<and> (\<forall>k. j < k \<and> int k \<le> i \<longrightarrow> Level S < Level (cs ! k))"
  show ?case
  proof (cases "0 \<le> index")
    case False
    then have "getPrevious_loop S cs index = None"
      by (subst getPrevious_loop.simps) simp
    moreover from False have "\<not> (\<exists>j. ?P index j)" by auto
    ultimately show ?thesis by simp
  next
    case True
    note inb = this
    let ?c = "cs ! nat index"
    have top: "int (nat index) \<le> index" using inb by simp
    consider (eq) "Level ?c = Level S" | (lt) "Level ?c < Level S" | (gt) "Level S < Level ?c"
      by linarith
    then show ?thesis
    proof cases
      case eq
      with inb have r: "getPrevious_loop S cs index = Some ?c"
        by (subst getPrevious_loop.simps) (simp add: Let_def)
      have "(\<exists>j. ?P index j) \<longleftrightarrow> p = ?c"
      proof
        assume "\<exists>j. ?P index j"
        then obtain j where j: "?P index j" by blast
        have "j = nat index"
        proof (rule ccontr)
          assume "j \<noteq> nat index"
          with j inb have "j < nat index" by linarith
          with j top have "Level S < Level ?c" by blast
          with eq show False by simp
        qed
        with j show "p = ?c" by simp
      next
        assume "p = ?c"
        with eq inb have "?P index (nat index)" by auto
        then show "\<exists>j. ?P index j" by blast
      qed
      with r show ?thesis by auto
    next
      case lt
      with inb have r: "getPrevious_loop S cs index = None"
        by (subst getPrevious_loop.simps) (simp add: Let_def)
      have "\<not> (\<exists>j. ?P index j)"
      proof
        assume "\<exists>j. ?P index j"
        then obtain j where j: "?P index j" by blast
        show False
        proof (cases "j = nat index")
          case True
          with j lt show False by simp
        next
          case False
          with j inb have "j < nat index" by linarith
          with j top have "Level S < Level ?c" by blast
          with lt show False by simp
        qed
      qed
      with r show ?thesis by simp
    next
      case gt
      with inb have r: "getPrevious_loop S cs index = getPrevious_loop S cs (index - 1)"
        by (subst getPrevious_loop.simps) (simp add: Let_def)
      from gt have IH: "getPrevious_loop S cs (index - 1) = Some p \<longleftrightarrow> (\<exists>j. ?P (index - 1) j)"
        by (intro 1[OF inb refl _ refl]) simp_all
      have "(\<exists>j. ?P (index - 1) j) \<longleftrightarrow> (\<exists>j. ?P index j)"
      proof
        assume "\<exists>j. ?P (index - 1) j"
        then obtain j where j: "?P (index - 1) j" by blast
        have "Level S < Level (cs ! k)" if "j < k \<and> int k \<le> index" for k
        proof (cases "k = nat index")
          case True
          with gt show ?thesis by simp
        next
          case False
          with that inb have "j < k \<and> int k \<le> index - 1" by linarith
          with j show ?thesis by blast
        qed
        with j have "?P index j" by simp
        then show "\<exists>j. ?P index j" by blast
      next
        assume "\<exists>j. ?P index j"
        then obtain j where j: "?P index j" by blast
        have "j \<noteq> nat index" using j gt by auto
        with j inb have "int j \<le> index - 1" by linarith
        moreover have "Level S < Level (cs ! k)" if "j < k \<and> int k \<le> index - 1" for k
          using j that by auto
        ultimately have "?P (index - 1) j" using j by simp
        then show "\<exists>j. ?P (index - 1) j" by blast
      qed
      with r IH show ?thesis by simp
    qed
  qed
qed

lemma getChildren_loop_eq:
  "0 \<le> index \<Longrightarrow>
   getChildren_loop S cs index children =
     children @ filter (\<lambda>c. Level c = Level S + 1 \<and> Level c \<le> 3)
                  (takeWhile (\<lambda>c. Level S < Level c) (drop (nat index) cs))"
proof (induction S cs index children rule: getChildren_loop.induct)
  case (1 S cs index children)
  show ?case
  proof (cases "index < int (length cs)")
    case False
    with 1(2) show ?thesis by (subst getChildren_loop.simps) simp
  next
    case True
    let ?c = "cs ! nat index"
    from True 1(2) have d: "drop (nat index) cs = ?c # drop (Suc (nat index)) cs"
      by (simp add: Cons_nth_drop_Suc)
    have nat1: "nat (index + 1) = Suc (nat index)" using 1(2) by simp
    show ?thesis
    proof (cases "Level ?c \<le> Level S")
      case le: True
      with True show ?thesis
        by (subst getChildren_loop.simps) (simp add: Let_def d)
    next
      case gt: False
      from gt 1(2) have IH: "getChildren_loop S cs (index + 1) ch' =
          ch' @ filter (\<lambda>c. Level c = Level S + 1 \<and> Level c \<le> 3)
                  (takeWhile (\<lambda>c. Level S < Level c) (drop (nat (index + 1)) cs))"
        if "ch' = (if Level ?c = Level S + 1 \<and> Level ?c \<le> 3 then children @ [?c] else children)"
        for ch'
        using that by (intro 1(1)[OF True refl refl refl _ refl]) simp_all
      from True gt show ?thesis
        by (subst getChildren_loop.simps) (simp add: Let_def d IH nat1)
    qed
  qed
qed

lemma slices_Insert_ok:
  "0 \<le> index \<Longrightarrow>
   slices_Insert slice x index
     = Inr ((slice @ replicate (Suc (nat index) - length slice) None)[nat index := Some x])"
  by (auto simp: slices_Insert_def Let_def nat_add_distrib Suc_diff_le)

lemma last_candidate_alt:
  "last_candidate preceding S k =
     (if filter (\<lambda>c. Level c < Level S \<and> Level c = int k + 1) preceding = [] then None
      else Some (last (filter (\<lambda>c. Level c < Level S \<and> Level c = int k + 1) preceding)))"
  by (simp add: last_candidate_def split: list.splits)

lemma last_candidate_snoc:
  "last_candidate (preceding @ [c]) S k =
     (if Level c < Level S \<and> Level c = int k + 1 then Some c else last_candidate preceding S k)"
  by (simp add: last_candidate_alt)

lemma last_candidate_Some:
  assumes "last_candidate preceding S k = Some c"
  shows "c \<in> set preceding \<and> Level c < Level S \<and> Level c = int k + 1"
proof -
  let ?ys = "filter (\<lambda>c. Level c < Level S \<and> Level c = int k + 1) preceding"
  from assms have ne: "?ys \<noteq> []" and c: "c = last ?ys"
    by (auto simp: last_candidate_alt split: if_splits)
  from ne have "last ?ys \<in> set ?ys" by (rule last_in_set)
  with c show ?thesis by simp
qed

lemma parents_of_step:
  assumes inv: "parents_of preceding S parents"
    and c: "Level c < Level S" "1 \<le> Level c"
  shows "parents_of (preceding @ [c]) S
     ((parents @ replicate (Suc (nat (Level c - 1)) - length parents) None)
        [nat (Level c - 1) := Some c])"
proof -
  let ?l = "nat (Level c - 1)"
  let ?ext = "parents @ replicate (Suc ?l - length parents) None"
  let ?new = "?ext[?l := Some c]"
  have lev: "Level c = int ?l + 1" using c(2) by simp
  have lenx: "length ?ext = max (length parents) (Suc ?l)" by auto
  have len: "length ?new = max (length parents) (Suc ?l)" by auto
  have in_ext: "?l < length ?ext" unfolding lenx by simp
  have slot: "last_candidate (preceding @ [c]) S k =
      (if k = ?l then Some c else last_candidate preceding S k)" for k
    using c lev by (auto simp: last_candidate_snoc)
  have nth_ext: "?ext ! k = last_candidate preceding S k" if "k < length ?ext" for k
  proof (cases "k < length parents")
    case True
    with inv show ?thesis by (simp add: parents_of_def nth_append)
  next
    case False
    with inv have "last_candidate preceding S k = None" by (simp add: parents_of_def)
    moreover from False that have "?ext ! k = None" by (simp add: nth_append)
    ultimately show ?thesis by simp
  qed
  have A: "\<forall>k < length ?new. ?new ! k = last_candidate (preceding @ [c]) S k"
  proof (intro allI impI)
    fix k assume k: "k < length ?new"
    then have kx: "k < length ?ext" by simp
    show "?new ! k = last_candidate (preceding @ [c]) S k"
    proof (cases "k = ?l")
      case True
      with in_ext show ?thesis by (simp add: slot)
    next
      case False
      then have "?new ! k = ?ext ! k" by (simp only: nth_list_update_neq not_sym)
      with False nth_ext[OF kx] show ?thesis by (simp only: slot if_False)
    qed
  qed
  have B: "\<forall>k \<ge> length ?new. last_candidate (preceding @ [c]) S k = None"
  proof (intro allI impI)
    fix k assume "length ?new \<le> k"
    then have k: "length parents \<le> k" "Suc ?l \<le> k" unfolding len by simp_all
    then have "k \<noteq> ?l" by simp
    moreover from inv k(1) have "last_candidate preceding S k = None" by (simp add: parents_of_def)
    ultimately show "last_candidate (preceding @ [c]) S k = None" by (simp only: slot if_False)
  qed
  have C: "?new = [] \<or> last ?new \<noteq> None"
  proof (cases "length parents \<le> Suc ?l")
    case True
    then have "length ?new = Suc ?l" unfolding len by simp
    then have ne: "?new \<noteq> []" and l1: "length ?new - 1 = ?l" by auto
    from ne have "last ?new = ?new ! (length ?new - 1)" by (rule last_conv_nth)
    then have "last ?new = ?new ! ?l" unfolding l1 .
    also have "\<dots> = Some c" using in_ext by (simp only: nth_list_update_eq)
    finally show ?thesis by simp
  next
    case False
    then have ext: "?ext = parents" and pne: "parents \<noteq> []" by auto
    from False have "length parents - 1 \<noteq> ?l" by simp
    with pne have "last (parents[?l := Some c]) = last parents"
      by (simp add: last_conv_nth)
    moreover from inv pne have "last parents \<noteq> None" by (simp add: parents_of_def)
    ultimately show ?thesis unfolding ext by simp
  qed
  from A B C show ?thesis unfolding parents_of_def by blast
qed

lemma parents_of_skip:
  assumes inv: "parents_of preceding S parents" and c: "\<not> Level c < Level S"
  shows "parents_of (preceding @ [c]) S parents"
  using assms by (simp add: parents_of_def last_candidate_snoc)

lemma getParents_loop_parents_of:
  assumes levels: "\<forall>c \<in> set cs. 1 \<le> Level c" and dist: "distinct cs" and i: "i < length cs"
  shows "m \<le> i \<Longrightarrow> parents_of (take m cs) (cs ! i) parents \<Longrightarrow>
     \<exists>result. getParents_loop (cs ! i) cs (int m) parents = Inr result
        \<and> parents_of (take i cs) (cs ! i) result"
proof (induction "i - m" arbitrary: m parents)
  case 0
  then have "m = i" by simp
  with 0 dist i show ?case
    by (subst getParents_loop.simps) (simp add: slices_Index_nth)
next
  case (Suc d)
  then have m: "m < i" by simp
  with i have mlen: "m < length cs" by simp
  let ?c = "cs ! m"
  have tk: "take (Suc m) cs = take m cs @ [?c]" using mlen by (simp add: take_Suc_conv_app_nth)
  have c1: "1 \<le> Level ?c" using levels mlen by simp
  have idx: "int m < slices_Index cs (cs ! i)" using m dist i by (simp add: slices_Index_nth)
  have d: "d = i - Suc m" using Suc(2) by simp
  have sm: "Suc m \<le> i" using m by simp
  have e: "int m + 1 = int (Suc m)" by simp
  show ?case
  proof (cases "Level ?c < Level (cs ! i)")
    case True
    from c1 have "0 \<le> Level ?c - 1" by simp
    then have ins: "slices_Insert parents ?c (Level ?c - 1)
       = Inr ((parents @ replicate (Suc (nat (Level ?c - 1)) - length parents) None)
                [nat (Level ?c - 1) := Some ?c])"
      by (rule slices_Insert_ok)
    from parents_of_step[OF Suc(4) True c1]
    have inv': "parents_of (take (Suc m) cs) (cs ! i)
       ((parents @ replicate (Suc (nat (Level ?c - 1)) - length parents) None)
                [nat (Level ?c - 1) := Some ?c])"
      unfolding tk .
    from Suc(1)[OF d sm inv'] idx True ins show ?thesis
      by (subst getParents_loop.simps) (simp add: Let_def e del: of_nat_Suc)
  next
    case False
    from parents_of_skip[OF Suc(4) False]
    have inv': "parents_of (take (Suc m) cs) (cs ! i) parents" unfolding tk .
    from Suc(1)[OF d sm inv'] idx False show ?thesis
      by (subst getParents_loop.simps) (simp add: Let_def e del: of_nat_Suc)
  qed
qed

lemma getParents_parents_of:
  assumes "\<forall>c \<in> set cs. 1 \<le> Level c" and "distinct cs" and "i < length cs"
  shows "\<exists>parents. getParents (cs ! i) cs = Inr parents \<and> parents_of (take i cs) (cs ! i) parents"
proof -
  have "parents_of (take 0 cs) (cs ! i) []"
    by (simp add: parents_of_def last_candidate_def)
  from getParents_loop_parents_of[OF assms, of 0 "[]"] this show ?thesis
    by (simp add: getParents_def)
qed

lemma Pages_loop_result:
  assumes "\<forall>c \<in> set rest. \<exists>parents. getParents c cs = Inr parents"
  shows "\<exists>new. Pages_loop rest cs pages = Inr (pages @ new) \<and> length new = length rest
     \<and> (\<forall>k < length rest.
           Level (new ! k) = Level (rest ! k)
         \<and> Next (new ! k) = getNext (rest ! k) cs
         \<and> HasNext (new ! k) = (Next (new ! k) \<noteq> None)
         \<and> Previous (new ! k) = getPrevious (rest ! k) cs
         \<and> HasPrevious (new ! k) = (Previous (new ! k) \<noteq> None)
         \<and> getParents (rest ! k) cs = Inr (Parents (new ! k))
         \<and> HasParents (new ! k) = (Parents (new ! k) \<noteq> [])
         \<and> Children (new ! k) = getChildren (rest ! k) cs
         \<and> HasChildren (new ! k) = (Children (new ! k) \<noteq> []))"
  using assms
proof (induction rest arbitrary: pages)
  case Nil
  then show ?case by simp
next
  case (Cons c rest)
  from Cons.prems obtain parents where par: "getParents c cs = Inr parents" by auto
  define page :: Page where "page =
     \<lparr>Id = Id c, Level = Level c, Path = Path c,
      Title = Title c, Content = Content c,
      Next = getNext c cs, HasNext = (getNext c cs \<noteq> None),
      Previous = getPrevious c cs, HasPrevious = (getPrevious c cs \<noteq> None),
      Parents = parents, HasParents = (\<not> slices_IsEmpty parents),
      Children = getChildren c cs,
      HasChildren = (\<not> slices_IsEmpty (getChildren c cs))\<rparr>"
  have step: "Pages_loop (c # rest) cs pages = Pages_loop rest cs (pages @ [page])"
    using par by (simp add: Let_def page_def)
  from Cons.prems have "\<forall>c \<in> set rest. \<exists>parents. getParents c cs = Inr parents" by simp
  from Cons.IH[OF this, of "pages @ [page]"] obtain new where
    r: "Pages_loop rest cs (pages @ [page]) = Inr ((pages @ [page]) @ new)"
    and len: "length new = length rest"
    and nth: "\<And>k. k < length rest \<Longrightarrow>
           Level (new ! k) = Level (rest ! k)
         \<and> Next (new ! k) = getNext (rest ! k) cs
         \<and> HasNext (new ! k) = (Next (new ! k) \<noteq> None)
         \<and> Previous (new ! k) = getPrevious (rest ! k) cs
         \<and> HasPrevious (new ! k) = (Previous (new ! k) \<noteq> None)
         \<and> getParents (rest ! k) cs = Inr (Parents (new ! k))
         \<and> HasParents (new ! k) = (Parents (new ! k) \<noteq> [])
         \<and> Children (new ! k) = getChildren (rest ! k) cs
         \<and> HasChildren (new ! k) = (Children (new ! k) \<noteq> [])"
    by blast
  have nth0: "Level page = Level c
         \<and> Next page = getNext c cs
         \<and> HasNext page = (Next page \<noteq> None)
         \<and> Previous page = getPrevious c cs
         \<and> HasPrevious page = (Previous page \<noteq> None)
         \<and> getParents c cs = Inr (Parents page)
         \<and> HasParents page = (Parents page \<noteq> [])
         \<and> Children page = getChildren c cs
         \<and> HasChildren page = (Children page \<noteq> [])"
    using par by (simp add: page_def slices_IsEmpty_def)
  have "Level ((page # new) ! k) = Level ((c # rest) ! k)
         \<and> Next ((page # new) ! k) = getNext ((c # rest) ! k) cs
         \<and> HasNext ((page # new) ! k) = (Next ((page # new) ! k) \<noteq> None)
         \<and> Previous ((page # new) ! k) = getPrevious ((c # rest) ! k) cs
         \<and> HasPrevious ((page # new) ! k) = (Previous ((page # new) ! k) \<noteq> None)
         \<and> getParents ((c # rest) ! k) cs = Inr (Parents ((page # new) ! k))
         \<and> HasParents ((page # new) ! k) = (Parents ((page # new) ! k) \<noteq> [])
         \<and> Children ((page # new) ! k) = getChildren ((c # rest) ! k) cs
         \<and> HasChildren ((page # new) ! k) = (Children ((page # new) ! k) \<noteq> [])"
    if "k < length (c # rest)" for k
  proof (cases k)
    case 0
    with nth0 show ?thesis by (simp only: nth_Cons_0)
  next
    case (Suc j)
    with that have "j < length rest" by simp
    from nth[OF this] show ?thesis unfolding Suc by (simp only: nth_Cons_Suc)
  qed
  with step r len show ?case
    by (intro exI[of _ "page # new"]) simp
qed

lemma Pages_result:
  assumes run: "Chapters L body = Inr (cs, None)"
  shows "\<exists>pages. Pages L body = Inr (pages, None) \<and> length pages = length cs
     \<and> (\<forall>k < length cs.
           Level (pages ! k) = Level (cs ! k)
         \<and> Next (pages ! k) = getNext (cs ! k) cs
         \<and> HasNext (pages ! k) = (Next (pages ! k) \<noteq> None)
         \<and> Previous (pages ! k) = getPrevious (cs ! k) cs
         \<and> HasPrevious (pages ! k) = (Previous (pages ! k) \<noteq> None)
         \<and> getParents (cs ! k) cs = Inr (Parents (pages ! k))
         \<and> HasParents (pages ! k) = (Parents (pages ! k) \<noteq> [])
         \<and> Children (pages ! k) = getChildren (cs ! k) cs
         \<and> HasChildren (pages ! k) = (Children (pages ! k) \<noteq> []))"
proof -
  have body: "parsetree_IsBody body"
    using run by (cases rule: Chapters_cases[of body L]) auto
  have lv: "\<forall>c \<in> set cs. 1 \<le> Level c" using Chapters_levels[OF run] by blast
  have dist: "distinct cs" using run by (rule Chapters_distinct)
  have "\<forall>c \<in> set cs. \<exists>parents. getParents c cs = Inr parents"
  proof
    fix c assume "c \<in> set cs"
    then obtain i where "i < length cs" "c = cs ! i" by (auto simp: in_set_conv_nth)
    with getParents_parents_of[OF lv dist, of i] show "\<exists>parents. getParents c cs = Inr parents"
      by blast
  qed
  from Pages_loop_result[OF this, of "[]"] obtain new where
    "Pages_loop cs cs [] = Inr new" "length new = length cs"
    "\<forall>k < length cs.
           Level (new ! k) = Level (cs ! k)
         \<and> Next (new ! k) = getNext (cs ! k) cs
         \<and> HasNext (new ! k) = (Next (new ! k) \<noteq> None)
         \<and> Previous (new ! k) = getPrevious (cs ! k) cs
         \<and> HasPrevious (new ! k) = (Previous (new ! k) \<noteq> None)
         \<and> getParents (cs ! k) cs = Inr (Parents (new ! k))
         \<and> HasParents (new ! k) = (Parents (new ! k) \<noteq> [])
         \<and> Children (new ! k) = getChildren (cs ! k) cs
         \<and> HasChildren (new ! k) = (Children (new ! k) \<noteq> [])"
    by auto
  with body run show ?thesis
    by (intro exI[of _ new]) (simp add: Pages_def)
qed

lemma getNext_Some_iff:
  assumes "distinct cs" "i < length cs"
  shows "getNext (cs ! i) cs = Some n \<longleftrightarrow>
     (\<exists>j. i < j \<and> j < length cs \<and> n = cs ! j \<and> Level (cs ! j) = Level (cs ! i)
        \<and> (\<forall>k. i < k \<and> k < j \<longrightarrow> Level (cs ! i) < Level (cs ! k)))"
proof -
  have e: "nat (int i + 1) = Suc i" by simp
  show ?thesis
    using assms getNext_loop_Some_iff[of "int i + 1" "cs ! i" cs n]
    by (simp add: getNext_def slices_Index_nth e Suc_le_eq del: of_nat_Suc)
qed

lemma getPrevious_Some_iff:
  assumes "distinct cs" "i < length cs"
  shows "getPrevious (cs ! i) cs = Some p \<longleftrightarrow>
     (\<exists>j. j < i \<and> p = cs ! j \<and> Level (cs ! j) = Level (cs ! i)
        \<and> (\<forall>k. j < k \<and> k < i \<longrightarrow> Level (cs ! i) < Level (cs ! k)))"
proof -
  have e: "int j \<le> int i - 1 \<longleftrightarrow> j < i" for j by linarith
  show ?thesis
    using assms getPrevious_loop_Some_iff[of "cs ! i" cs "int i - 1" p]
    by (simp add: getPrevious_def slices_Index_nth e)
qed

lemma getChildren_eq:
  assumes "distinct cs" "i < length cs"
  shows "getChildren (cs ! i) cs =
     filter (\<lambda>c. Level c = Level (cs ! i) + 1 \<and> Level c \<le> 3)
       (takeWhile (\<lambda>c. Level (cs ! i) < Level c) (drop (Suc i) cs))"
proof -
  have e: "nat (int i + 1) = Suc i" by simp
  show ?thesis
    using assms getChildren_loop_eq[of "int i + 1" "cs ! i" cs "[]"]
    by (simp add: getChildren_def slices_Index_nth e del: of_nat_Suc)
qed

section \<open>Properties of the cross-reference resolver\<close>
































text \<open>
  Claim C1. The numbering prefix comes from three per-level counters. Called on a heading
  of level 1, the closure increments the first counter, resets the second (the third is
  left as it is) and yields the first counter; on level 2 it increments the second,
  resets the third and yields the first two counters; on level 3 it increments the third
  and yields all three; on levels 4 to 6 it yields the empty prefix and changes nothing.
  The prefixes of the chapters that Chapters returns are those counters run over the
  levels of the chapters from 0, 0, 0; in particular the levels 1, 2, 3, 1, 3 get the
  prefixes 1, 1.1, 1.1.1, 2, 2.0.2.
\<close>

theorem C1_numbering_prefix:
  "(parsetree_IsHeading h \<and> parsetree_HeadingLevel h = Inr (level, None) \<longrightarrow>
      prefix_call c h =
        (if level = 1 then
           (Sprintf_d (h1Counter c + 1), c\<lparr>h1Counter := h1Counter c + 1, h2Counter := 0\<rparr>)
         else if level = 2 then
           (Sprintf_d (h1Counter c) @ ''.'' @ Sprintf_d (h2Counter c + 1),
            c\<lparr>h2Counter := h2Counter c + 1, h3Counter := 0\<rparr>)
         else if level = 3 then
           (Sprintf_d (h1Counter c) @ ''.'' @ Sprintf_d (h2Counter c) @ ''.''
              @ Sprintf_d (h3Counter c + 1),
            c\<lparr>h3Counter := h3Counter c + 1\<rparr>)
         else ([], c)))
   \<and> (Chapters L body = Inr (chapters, err) \<longrightarrow>
        map (\<lambda>ch. Prefix (Title ch)) chapters = spec_numbering (0, 0, 0) (map Level chapters)
      \<and> (map Level chapters = [1, 2, 3, 1, 3] \<longrightarrow>
           map (\<lambda>ch. Prefix (Title ch)) chapters = [''1'', ''1.1'', ''1.1.1'', ''2'', ''2.0.2'']))"
proof (intro conjI impI)
  assume "parsetree_IsHeading h \<and> parsetree_HeadingLevel h = Inr (level, None)"
  then show "prefix_call c h =
        (if level = 1 then
           (Sprintf_d (h1Counter c + 1), c\<lparr>h1Counter := h1Counter c + 1, h2Counter := 0\<rparr>)
         else if level = 2 then
           (Sprintf_d (h1Counter c) @ ''.'' @ Sprintf_d (h2Counter c + 1),
            c\<lparr>h2Counter := h2Counter c + 1, h3Counter := 0\<rparr>)
         else if level = 3 then
           (Sprintf_d (h1Counter c) @ ''.'' @ Sprintf_d (h2Counter c) @ ''.''
              @ Sprintf_d (h3Counter c + 1),
            c\<lparr>h3Counter := h3Counter c + 1\<rparr>)
         else ([], c))"
    using prefix_call_level by blast
next
  assume run: "Chapters L body = Inr (chapters, err)"
  show num: "map (\<lambda>ch. Prefix (Title ch)) chapters = spec_numbering (0, 0, 0) (map Level chapters)"
    using run by (cases rule: Chapters_cases[of body L]) auto
  assume "map Level chapters = [1, 2, 3, 1, 3]"
  with num have "map (\<lambda>ch. Prefix (Title ch)) chapters = spec_numbering (0, 0, 0) [1, 2, 3, 1, 3]"
    by simp
  also have "\<dots> = [''1'', ''1.1'', ''1.1.1'', ''2'', ''2.0.2'']"
    by code_simp
  finally show "map (\<lambda>ch. Prefix (Title ch)) chapters = [''1'', ''1.1'', ''1.1.1'', ''2'', ''2.0.2'']" .
qed

theorem C1_numbering_prefix_witness:
  "map (\<lambda>ch. Prefix (Title ch)) (fst (projr (Chapters (example_env []) numbering_body)))
     = [''1'', ''1.1'', ''1.1.1'', ''2'', ''2.0.2'']
   \<and> prefix_call \<lparr>h1Counter = 1, h2Counter = 1, h3Counter = 1\<rparr> [html_element ''h1'' [] []]
     = (''2'', \<lparr>h1Counter = 2, h2Counter = 0, h3Counter = 1\<rparr>)"
proof -
  let ?r = "projr (Chapters (example_env []) numbering_body)"
  have run: "Chapters (example_env []) numbering_body = Inr (fst ?r, snd ?r)"
    by code_simp
  have levels: "map Level (fst ?r) = [1, 2, 3, 1, 3]"
    by code_simp
  have h: "parsetree_IsHeading [html_element ''h1'' [] []]
     \<and> parsetree_HeadingLevel [html_element ''h1'' [] []] = Inr (1, None)"
    by code_simp
  have two: "Sprintf_d (1 + 1) = ''2''" by code_simp
  note inst = C1_numbering_prefix[of "[html_element ''h1'' [] []]" 1
      "\<lparr>h1Counter = 1, h2Counter = 1, h3Counter = 1\<rparr>" "example_env []" numbering_body
      "fst ?r" "snd ?r"]
  from inst run levels have A:
    "map (\<lambda>ch. Prefix (Title ch)) (fst ?r) = [''1'', ''1.1'', ''1.1.1'', ''2'', ''2.0.2'']"
    by blast
  from inst h have
    "prefix_call \<lparr>h1Counter = 1, h2Counter = 1, h3Counter = 1\<rparr> [html_element ''h1'' [] []]
       = (Sprintf_d (1 + 1), \<lparr>h1Counter = 1 + 1, h2Counter = 0, h3Counter = 1\<rparr>)"
    by simp
  with two have B:
    "prefix_call \<lparr>h1Counter = 1, h2Counter = 1, h3Counter = 1\<rparr> [html_element ''h1'' [] []]
       = (''2'', \<lparr>h1Counter = 2, h2Counter = 0, h3Counter = 1\<rparr>)"
    by simp
  from A B show ?thesis by blast
qed

text \<open>
  Claim C2, as amended. Headings enumerates the heading elements (levels 1 to 6) among
  the direct children of the body, in document order; a heading nested deeper inside
  another element is not enumerated. When Chapters returns no error, it returns exactly
  one chapter per enumerated heading, in that order: the chapter at position i (counted
  from 0) has Id i + 1 and Path page(i + 1).html, its level is the level of the i-th
  heading and its title text is the joined fields of the text of that heading; all Paths
  are pairwise distinct. Chapters returns no error on a body whenever the serializer
  does not fail.
\<close>

theorem C2_sections_of_direct_headings:
  "(Chapters L body = Inr (chapters, None) \<longrightarrow>
      parsetree_Headings body
        = filter parsetree_IsHeading (child_pointers (FirstChild (hd body)))
    \<and> length chapters = length (parsetree_Headings body)
    \<and> (\<forall>i < length chapters.
          Id (chapters ! i) = int i + 1
        \<and> Path (chapters ! i) = ''page'' @ Sprintf_d (int i + 1) @ ''.html''
        \<and> parsetree_HeadingLevel (parsetree_Headings body ! i) = Inr (Level (chapters ! i), None)
        \<and> Text (Title (chapters ! i))
            = strings_Join (strings_Fields L (parsetree_Text (parsetree_Headings body ! i))) '' '')
    \<and> distinct (map Path chapters))
   \<and> (parsetree_IsBody body \<and> (\<forall>n. \<exists>s. html_Render L n = Inr s) \<longrightarrow>
        (\<exists>chapters. Chapters L body = Inr (chapters, None)))"
proof (intro conjI impI)
  assume run: "Chapters L body = Inr (chapters, None)"
  from run obtain b "next" where body: "body = b # next"
    by (cases body) (auto simp: Chapters_def parsetree_IsBody_def parsetree_IsElementFunc_def
        parsetree_IsElement_def parsetree_IsNil_def)
  show "parsetree_Headings body
        = filter parsetree_IsHeading (child_pointers (FirstChild (hd body)))"
    by (simp add: body Headings_filter)
  from run show len: "length chapters = length (parsetree_Headings body)"
    by (cases rule: Chapters_cases[of body L]) auto
  from run have nth: "Id (chapters ! i) = int i + 1
        \<and> Path (chapters ! i) = ''page'' @ Sprintf_d (int i + 1) @ ''.html''
        \<and> parsetree_HeadingLevel (parsetree_Headings body ! i) = Inr (Level (chapters ! i), None)
        \<and> Text (Title (chapters ! i))
            = strings_Join (strings_Fields L (parsetree_Text (parsetree_Headings body ! i))) '' ''"
    if "i < length chapters" for i
    using that by (cases rule: Chapters_cases[of body L]) auto
  then show "\<forall>i < length chapters.
          Id (chapters ! i) = int i + 1
        \<and> Path (chapters ! i) = ''page'' @ Sprintf_d (int i + 1) @ ''.html''
        \<and> parsetree_HeadingLevel (parsetree_Headings body ! i) = Inr (Level (chapters ! i), None)
        \<and> Text (Title (chapters ! i))
            = strings_Join (strings_Fields L (parsetree_Text (parsetree_Headings body ! i))) '' ''"
    by blast
  from nth show "distinct (map Path chapters)"
    by (intro distinct_page_paths) blast
next
  assume "parsetree_IsBody body \<and> (\<forall>n. \<exists>s. html_Render L n = Inr s)"
  then show "\<exists>chapters. Chapters L body = Inr (chapters, None)"
    using Chapters_total by blast
qed

text \<open>
  The claim C2 as stated fails: the body of this example holds one heading element,
  nested inside a div, and Chapters returns no chapter for it.
\<close>

theorem C2_nested_heading_counterexample:
  "Chapters (example_env []) nested_body = Inr ([], None)
   \<and> spec_Headings nested_body = [[html_element ''h1'' [] [html_text ''Nested'']]]
   \<and> length (fst (projr (Chapters (example_env []) nested_body)))
       \<noteq> length (spec_Headings nested_body)"
  by code_simp

theorem C2_sections_of_direct_headings_witness:
  "map (\<lambda>ch. (Id ch, Path ch, Level ch, Text (Title ch)))
       (fst (projr (Chapters (example_env []) sections_body)))
     = [(1, ''page1.html'', 1, ''Getting Started''), (2, ''page2.html'', 2, ''Install'')]
   \<and> length (parsetree_Headings sections_body) = 2
   \<and> distinct (map Path (fst (projr (Chapters (example_env []) sections_body))))"
proof -
  let ?r = "projr (Chapters (example_env []) sections_body)"
  have run: "Chapters (example_env []) sections_body = Inr (fst ?r, None)"
    by code_simp
  have val: "map (\<lambda>ch. (Id ch, Path ch, Level ch, Text (Title ch))) (fst ?r)
     = [(1, ''page1.html'', 1, ''Getting Started''), (2, ''page2.html'', 2, ''Install'')]"
    by code_simp
  have len: "length (fst ?r) = 2" by code_simp
  from C2_sections_of_direct_headings[of "example_env []" sections_body "fst ?r"] run
  have "length (fst ?r) = length (parsetree_Headings sections_body)"
    and "distinct (map Path (fst ?r))"
    by blast+
  with val len show ?thesis by simp
qed



text \<open>
  Claim C4. For every chapter S of an extracted list, at position i, getParents does not
  panic, and the list of parents it returns is built from the chapters before position
  i: slot k holds the last of them whose level is k + 1 and strictly smaller than the
  level of S (a later candidate of the same level has overwritten an earlier one), a
  slot whose level has no such chapter is nil, and the list ends with its last occupied
  slot. So every entry that is not nil has a level below the level of S, sits in the
  slot of its level minus one, and is a chapter at a position before i.
\<close>

theorem C4_ancestors:
  assumes "Chapters L body = Inr (cs, None)"
  shows "\<exists>pages. Pages L body = Inr (pages, None) \<and> length pages = length cs
     \<and> (\<forall>i < length cs.
          getParents (cs ! i) cs = Inr (Parents (pages ! i))
        \<and> parents_of (take i cs) (cs ! i) (Parents (pages ! i))
        \<and> (\<forall>k c. k < length (Parents (pages ! i)) \<and> Parents (pages ! i) ! k = Some c \<longrightarrow>
              Level c < Level (cs ! i) \<and> int k = Level c - 1 \<and> (\<exists>j < i. c = cs ! j))
        \<and> HasParents (pages ! i) = (Parents (pages ! i) \<noteq> []))"
proof -
  have dist: "distinct cs" using assms by (rule Chapters_distinct)
  have lv: "\<forall>c \<in> set cs. 1 \<le> Level c" using Chapters_levels[OF assms] by blast
  from Pages_result[OF assms] obtain pages where
    run: "Pages L body = Inr (pages, None)" and len: "length pages = length cs"
    and nth: "\<And>k. k < length cs \<Longrightarrow>
           getParents (cs ! k) cs = Inr (Parents (pages ! k))
         \<and> HasParents (pages ! k) = (Parents (pages ! k) \<noteq> [])"
    by blast
  have "getParents (cs ! i) cs = Inr (Parents (pages ! i))
        \<and> parents_of (take i cs) (cs ! i) (Parents (pages ! i))
        \<and> (\<forall>k c. k < length (Parents (pages ! i)) \<and> Parents (pages ! i) ! k = Some c \<longrightarrow>
              Level c < Level (cs ! i) \<and> int k = Level c - 1 \<and> (\<exists>j < i. c = cs ! j))
        \<and> HasParents (pages ! i) = (Parents (pages ! i) \<noteq> [])"
    if i: "i < length cs" for i
  proof -
    let ?ps = "Parents (pages ! i)"
    from getParents_parents_of[OF lv dist i] nth[OF i]
    have po: "parents_of (take i cs) (cs ! i) ?ps" by auto
    have slots: "Level c < Level (cs ! i) \<and> int k = Level c - 1 \<and> (\<exists>j < i. c = cs ! j)"
      if k: "k < length ?ps" "?ps ! k = Some c" for k c
    proof -
      from po k have "last_candidate (take i cs) (cs ! i) k = Some c"
        by (simp add: parents_of_def)
      from last_candidate_Some[OF this]
      have c: "c \<in> set (take i cs)" "Level c < Level (cs ! i)" "Level c = int k + 1" by simp_all
      from c(1) obtain j where "j < length (take i cs)" "c = take i cs ! j"
        by (auto simp: in_set_conv_nth)
      with i have "j < i" "c = cs ! j" by simp_all
      with c show ?thesis by auto
    qed
    from nth[OF i] po slots show ?thesis by blast
  qed
  with run len show ?thesis by blast
qed

theorem C4_ancestors_witness:
  "map (\<lambda>p. map (map_option Id) (Parents p)) (fst (projr (Pages (example_env []) hierarchy_body)))
     = [[], [Some 1], [Some 1, Some 2], [Some 1], [], [Some 5, Some 4], [Some 5],
        [Some 5, Some 7, Some 6], [Some 5, Some 7], [Some 5, Some 7, Some 9]]
   \<and> Parents (fst (projr (Pages (example_env []) hierarchy_body)) ! 5)
       = [Some (fst (projr (Chapters (example_env []) hierarchy_body)) ! 4),
          Some (fst (projr (Chapters (example_env []) hierarchy_body)) ! 3)]
   \<and> Level (fst (projr (Chapters (example_env []) hierarchy_body)) ! 3)
       < Level (fst (projr (Chapters (example_env []) hierarchy_body)) ! 5)
   \<and> int 1 = Level (fst (projr (Chapters (example_env []) hierarchy_body)) ! 3) - 1
   \<and> parents_of (take 5 (fst (projr (Chapters (example_env []) hierarchy_body))))
        (fst (projr (Chapters (example_env []) hierarchy_body)) ! 5)
        (Parents (fst (projr (Pages (example_env []) hierarchy_body)) ! 5))
   \<and> map (\<lambda>p. map (map_option Id) (Parents p)) (fst (projr (Pages (example_env []) sparse_body)))
     = [[], [None, Some 1]]"
proof -
  define cs where "cs = fst (projr (Chapters (example_env []) hierarchy_body))"
  have run: "Chapters (example_env []) hierarchy_body = Inr (cs, None)"
    unfolding cs_def by code_simp
  have len: "length cs = 10" unfolding cs_def by code_simp
  have all: "map (\<lambda>p. map (map_option Id) (Parents p))
       (fst (projr (Pages (example_env []) hierarchy_body)))
     = [[], [Some 1], [Some 1, Some 2], [Some 1], [], [Some 5, Some 4], [Some 5],
        [Some 5, Some 7, Some 6], [Some 5, Some 7], [Some 5, Some 7, Some 9]]"
    by code_simp
  have sp: "map (\<lambda>p. map (map_option Id) (Parents p))
       (fst (projr (Pages (example_env []) sparse_body)))
     = [[], [None, Some 1]]"
    by code_simp
  have p5: "Parents (fst (projr (Pages (example_env []) hierarchy_body)) ! 5)
     = [Some (cs ! 4), Some (cs ! 3)]"
    unfolding cs_def by code_simp
  from C4_ancestors[OF run] obtain pages where
    P: "Pages (example_env []) hierarchy_body = Inr (pages, None)"
    and A: "\<forall>i < length cs.
          getParents (cs ! i) cs = Inr (Parents (pages ! i))
        \<and> parents_of (take i cs) (cs ! i) (Parents (pages ! i))
        \<and> (\<forall>k c. k < length (Parents (pages ! i)) \<and> Parents (pages ! i) ! k = Some c \<longrightarrow>
              Level c < Level (cs ! i) \<and> int k = Level c - 1 \<and> (\<exists>j < i. c = cs ! j))
        \<and> HasParents (pages ! i) = (Parents (pages ! i) \<noteq> [])"
    by (elim exE conjE)
  have i5: "5 < length cs" using len by simp
  note A5 = A[rule_format, OF i5]
  from P have eq: "fst (projr (Pages (example_env []) hierarchy_body)) = pages" by simp
  from A5 have po: "parents_of (take 5 cs) (cs ! 5) (Parents (pages ! 5))" by blast
  from A5 have sl: "1 < length (Parents (pages ! 5)) \<and> Parents (pages ! 5) ! 1 = Some (cs ! 3) \<longrightarrow>
              Level (cs ! 3) < Level (cs ! 5) \<and> int 1 = Level (cs ! 3) - 1"
    by blast
  from p5 have "1 < length (Parents (pages ! 5)) \<and> Parents (pages ! 5) ! 1 = Some (cs ! 3)"
    unfolding eq by simp
  with sl have lvl: "Level (cs ! 3) < Level (cs ! 5) \<and> int 1 = Level (cs ! 3) - 1" by blast
  from all sp p5 po lvl show ?thesis unfolding eq cs_def[symmetric] by blast
qed

text \<open>
  Claim C5. For every chapter S of an extracted list, at position i, the field Next of
  its page is a chapter n exactly when n is the chapter at some later position j whose
  level equals the level of S while every chapter strictly between i and j has a level
  strictly greater than the level of S; so Next is absent when a chapter of a smaller
  level comes first or the list ends. Previous is the same scan backward. HasNext and
  HasPrevious say whether the fields are set.
\<close>

theorem C5_next_previous:
  assumes "Chapters L body = Inr (cs, None)"
  shows "\<exists>pages. Pages L body = Inr (pages, None) \<and> length pages = length cs
     \<and> (\<forall>i < length cs.
          (\<forall>n. Next (pages ! i) = Some n \<longleftrightarrow>
             (\<exists>j. i < j \<and> j < length cs \<and> n = cs ! j \<and> Level (cs ! j) = Level (cs ! i)
                \<and> (\<forall>k. i < k \<and> k < j \<longrightarrow> Level (cs ! i) < Level (cs ! k))))
        \<and> (\<forall>p. Previous (pages ! i) = Some p \<longleftrightarrow>
             (\<exists>j. j < i \<and> p = cs ! j \<and> Level (cs ! j) = Level (cs ! i)
                \<and> (\<forall>k. j < k \<and> k < i \<longrightarrow> Level (cs ! i) < Level (cs ! k))))
        \<and> HasNext (pages ! i) = (Next (pages ! i) \<noteq> None)
        \<and> HasPrevious (pages ! i) = (Previous (pages ! i) \<noteq> None))"
proof -
  have dist: "distinct cs" using assms by (rule Chapters_distinct)
  from Pages_result[OF assms] obtain pages where
    run: "Pages L body = Inr (pages, None)" and len: "length pages = length cs"
    and nth: "\<And>k. k < length cs \<Longrightarrow>
           Next (pages ! k) = getNext (cs ! k) cs
         \<and> HasNext (pages ! k) = (Next (pages ! k) \<noteq> None)
         \<and> Previous (pages ! k) = getPrevious (cs ! k) cs
         \<and> HasPrevious (pages ! k) = (Previous (pages ! k) \<noteq> None)"
    by blast
  have "(\<forall>n. Next (pages ! i) = Some n \<longleftrightarrow>
             (\<exists>j. i < j \<and> j < length cs \<and> n = cs ! j \<and> Level (cs ! j) = Level (cs ! i)
                \<and> (\<forall>k. i < k \<and> k < j \<longrightarrow> Level (cs ! i) < Level (cs ! k))))
        \<and> (\<forall>p. Previous (pages ! i) = Some p \<longleftrightarrow>
             (\<exists>j. j < i \<and> p = cs ! j \<and> Level (cs ! j) = Level (cs ! i)
                \<and> (\<forall>k. j < k \<and> k < i \<longrightarrow> Level (cs ! i) < Level (cs ! k))))
        \<and> HasNext (pages ! i) = (Next (pages ! i) \<noteq> None)
        \<and> HasPrevious (pages ! i) = (Previous (pages ! i) \<noteq> None)"
    if i: "i < length cs" for i
    using nth[OF i] getNext_Some_iff[OF dist i] getPrevious_Some_iff[OF dist i]
    by simp
  with run len show ?thesis by blast
qed

theorem C5_next_previous_witness:
  "map (\<lambda>p. (map_option Id (Next p), map_option Id (Previous p)))
       (fst (projr (Pages (example_env []) hierarchy_body)))
     = [(Some 5, None), (Some 4, None), (None, None), (None, Some 2), (None, Some 1),
        (None, None), (None, None), (None, None), (None, None), (None, None)]
   \<and> Next (fst (projr (Pages (example_env []) hierarchy_body)) ! 1)
       = Some (fst (projr (Chapters (example_env []) hierarchy_body)) ! 3)
   \<and> Previous (fst (projr (Pages (example_env []) hierarchy_body)) ! 3)
       = Some (fst (projr (Chapters (example_env []) hierarchy_body)) ! 1)"
proof -
  define cs where "cs = fst (projr (Chapters (example_env []) hierarchy_body))"
  have run: "Chapters (example_env []) hierarchy_body = Inr (cs, None)"
    unfolding cs_def by code_simp
  have len: "length cs = 10" unfolding cs_def by code_simp
  have lv: "Level (cs ! 1) = 2" "Level (cs ! 2) = 3" "Level (cs ! 3) = 2"
    unfolding cs_def by code_simp+
  have all: "map (\<lambda>p. (map_option Id (Next p), map_option Id (Previous p)))
       (fst (projr (Pages (example_env []) hierarchy_body)))
     = [(Some 5, None), (Some 4, None), (None, None), (None, Some 2), (None, Some 1),
        (None, None), (None, None), (None, None), (None, None), (None, None)]"
    by code_simp
  from C5_next_previous[OF run] obtain pages where
    P: "Pages (example_env []) hierarchy_body = Inr (pages, None)"
    and A: "\<forall>i < length cs.
          (\<forall>n. Next (pages ! i) = Some n \<longleftrightarrow>
             (\<exists>j. i < j \<and> j < length cs \<and> n = cs ! j \<and> Level (cs ! j) = Level (cs ! i)
                \<and> (\<forall>k. i < k \<and> k < j \<longrightarrow> Level (cs ! i) < Level (cs ! k))))
        \<and> (\<forall>p. Previous (pages ! i) = Some p \<longleftrightarrow>
             (\<exists>j. j < i \<and> p = cs ! j \<and> Level (cs ! j) = Level (cs ! i)
                \<and> (\<forall>k. j < k \<and> k < i \<longrightarrow> Level (cs ! i) < Level (cs ! k))))
        \<and> HasNext (pages ! i) = (Next (pages ! i) \<noteq> None)
        \<and> HasPrevious (pages ! i) = (Previous (pages ! i) \<noteq> None)"
    by (elim exE conjE)
  have i1: "1 < length cs" and i3: "3 < length cs" using len by simp_all
  note A1 = A[rule_format, OF i1] and A3 = A[rule_format, OF i3]
  have btw: "\<forall>k. 1 < k \<and> k < 3 \<longrightarrow> 2 < Level (cs ! k)"
  proof (intro allI impI)
    fix k :: nat assume "1 < k \<and> k < 3"
    then have "k = 2" by arith
    with lv show "2 < Level (cs ! k)" by simp
  qed
  have "\<exists>j. 1 < j \<and> j < length cs \<and> cs ! 3 = cs ! j \<and> Level (cs ! j) = Level (cs ! 1)
                \<and> (\<forall>k. 1 < k \<and> k < j \<longrightarrow> Level (cs ! 1) < Level (cs ! k))"
    using len lv btw by (intro exI[of _ 3]) simp
  with A1 have nx: "Next (pages ! 1) = Some (cs ! 3)" by blast
  have "\<exists>j. j < 3 \<and> cs ! 1 = cs ! j \<and> Level (cs ! j) = Level (cs ! 3)
                \<and> (\<forall>k. j < k \<and> k < 3 \<longrightarrow> Level (cs ! 3) < Level (cs ! k))"
    using len lv btw by (intro exI[of _ 1]) simp
  with A3 have pv: "Previous (pages ! 3) = Some (cs ! 1)" by blast
  from P have eq: "fst (projr (Pages (example_env []) hierarchy_body)) = pages" by simp
  from all nx pv show ?thesis unfolding eq cs_def[symmetric] by blast
qed

text \<open>
  Claim C6. For every chapter S of an extracted list, at position i: when the level of S
  is at most 2, the children of its page are exactly the chapters of level S + 1 among
  the chapters that follow S up to, and excluding, the first one whose level is at most
  the level of S, in document order; when the level of S is 3 or more, the page has no
  children. HasChildren says whether there are any.
\<close>

theorem C6_children:
  assumes "Chapters L body = Inr (cs, None)"
  shows "\<exists>pages. Pages L body = Inr (pages, None) \<and> length pages = length cs
     \<and> (\<forall>i < length cs.
          (Level (cs ! i) \<le> 2 \<longrightarrow>
             Children (pages ! i) =
               filter (\<lambda>c. Level c = Level (cs ! i) + 1)
                 (takeWhile (\<lambda>c. Level (cs ! i) < Level c) (drop (Suc i) cs)))
        \<and> (3 \<le> Level (cs ! i) \<longrightarrow> Children (pages ! i) = [])
        \<and> HasChildren (pages ! i) = (Children (pages ! i) \<noteq> []))"
proof -
  have dist: "distinct cs" using assms by (rule Chapters_distinct)
  from Pages_result[OF assms] obtain pages where
    run: "Pages L body = Inr (pages, None)" and len: "length pages = length cs"
    and nth: "\<And>k. k < length cs \<Longrightarrow>
           Children (pages ! k) = getChildren (cs ! k) cs
         \<and> HasChildren (pages ! k) = (Children (pages ! k) \<noteq> [])"
    by blast
  have "(Level (cs ! i) \<le> 2 \<longrightarrow>
             Children (pages ! i) =
               filter (\<lambda>c. Level c = Level (cs ! i) + 1)
                 (takeWhile (\<lambda>c. Level (cs ! i) < Level c) (drop (Suc i) cs)))
        \<and> (3 \<le> Level (cs ! i) \<longrightarrow> Children (pages ! i) = [])
        \<and> HasChildren (pages ! i) = (Children (pages ! i) \<noteq> [])"
    if i: "i < length cs" for i
  proof -
    let ?S = "cs ! i"
    have ch: "Children (pages ! i) =
       filter (\<lambda>c. Level c = Level ?S + 1 \<and> Level c \<le> 3)
         (takeWhile (\<lambda>c. Level ?S < Level c) (drop (Suc i) cs))"
      using nth[OF i] getChildren_eq[OF dist i] by simp
    have low: "Level ?S \<le> 2 \<Longrightarrow>
       (\<lambda>c. Level c = Level ?S + 1 \<and> Level c \<le> 3) = (\<lambda>c. Level c = Level ?S + 1)"
      by auto
    have high: "3 \<le> Level ?S \<Longrightarrow>
       (\<lambda>c. Level c = Level ?S + 1 \<and> Level c \<le> 3) = (\<lambda>c. False)"
      by auto
    have A: "Children (pages ! i) =
       filter (\<lambda>c. Level c = Level ?S + 1)
         (takeWhile (\<lambda>c. Level ?S < Level c) (drop (Suc i) cs))" if "Level ?S \<le> 2"
      using ch unfolding low[OF that] .
    have B: "Children (pages ! i) = []" if "3 \<le> Level ?S"
      using ch unfolding high[OF that] by simp
    from A B nth[OF i] show ?thesis by blast
  qed
  with run len show ?thesis by blast
qed

theorem C6_children_witness:
  "map (\<lambda>p. map Id (Children p)) (fst (projr (Pages (example_env []) hierarchy_body)))
     = [[2, 4], [3], [], [], [7], [], [9], [], [], []]
   \<and> Children (fst (projr (Pages (example_env []) hierarchy_body)) ! 0)
       = [fst (projr (Chapters (example_env []) hierarchy_body)) ! 1,
          fst (projr (Chapters (example_env []) hierarchy_body)) ! 3]
   \<and> Level (fst (projr (Chapters (example_env []) hierarchy_body)) ! 8) = 3
   \<and> Level (fst (projr (Chapters (example_env []) hierarchy_body)) ! 9) = 4
   \<and> Children (fst (projr (Pages (example_env []) hierarchy_body)) ! 8) = []"
proof -
  define cs where "cs = fst (projr (Chapters (example_env []) hierarchy_body))"
  have run: "Chapters (example_env []) hierarchy_body = Inr (cs, None)"
    unfolding cs_def by code_simp
  have len: "length cs = 10" unfolding cs_def by code_simp
  have lv: "Level (cs ! 0) = 1" "Level (cs ! 8) = 3" "Level (cs ! 9) = 4"
    unfolding cs_def by code_simp+
  have all: "map (\<lambda>p. map Id (Children p)) (fst (projr (Pages (example_env []) hierarchy_body)))
     = [[2, 4], [3], [], [], [7], [], [9], [], [], []]"
    by code_simp
  have ev: "filter (\<lambda>c. Level c = Level (cs ! 0) + 1)
                 (takeWhile (\<lambda>c. Level (cs ! 0) < Level c) (drop (Suc 0) cs))
     = [cs ! 1, cs ! 3]"
    unfolding cs_def by code_simp
  from C6_children[OF run] obtain pages where
    P: "Pages (example_env []) hierarchy_body = Inr (pages, None)"
    and A: "\<forall>i < length cs.
          (Level (cs ! i) \<le> 2 \<longrightarrow>
             Children (pages ! i) =
               filter (\<lambda>c. Level c = Level (cs ! i) + 1)
                 (takeWhile (\<lambda>c. Level (cs ! i) < Level c) (drop (Suc i) cs)))
        \<and> (3 \<le> Level (cs ! i) \<longrightarrow> Children (pages ! i) = [])
        \<and> HasChildren (pages ! i) = (Children (pages ! i) \<noteq> [])"
    by (elim exE conjE)
  have i0: "0 < length cs" and i8: "8 < length cs" using len by simp_all
  note A0 = A[rule_format, OF i0] and A8 = A[rule_format, OF i8]
  from A0 lv(1) have "Children (pages ! 0) =
               filter (\<lambda>c. Level c = Level (cs ! 0) + 1)
                 (takeWhile (\<lambda>c. Level (cs ! 0) < Level c) (drop (Suc 0) cs))"
    by simp
  then have c0: "Children (pages ! 0) = [cs ! 1, cs ! 3]" unfolding ev .
  from A8 lv(2) have c8: "Children (pages ! 8) = []" by simp
  from P have eq: "fst (projr (Pages (example_env []) hierarchy_body)) = pages" by simp
  from all c0 c8 lv show ?thesis unfolding eq cs_def[symmetric] by blast
qed



text \<open>
  Claim C8. On a node that is not a body element (the nil pointer included), Chapters
  returns the structural error and an empty list of chapters, and Pages, the entry point
  of the hierarchy resolution, makes the same check and returns the same error and an
  empty list of pages.
\<close>

theorem C8_not_a_body:
  "\<not> parsetree_IsBody body \<Longrightarrow>
     Chapters L body = Inr ([], Some (Error ''passed HTML node is not a 'body' element''))
   \<and> Pages L body = Inr ([], Some (Error ''passed HTML node is not a 'body' element''))"
  by (simp add: Chapters_def Pages_def)

theorem C8_not_a_body_witness:
  "\<not> parsetree_IsBody [html_element ''div'' [] [html_element ''h1'' [] [html_text ''A'']]]
   \<and> Chapters (example_env []) [html_element ''div'' [] [html_element ''h1'' [] [html_text ''A'']]]
     = Inr ([], Some (Error ''passed HTML node is not a 'body' element''))
   \<and> Pages (example_env []) [html_element ''div'' [] [html_element ''h1'' [] [html_text ''A'']]]
     = Inr ([], Some (Error ''passed HTML node is not a 'body' element''))
   \<and> \<not> parsetree_IsBody []
   \<and> Chapters (example_env []) [] = Inr ([], Some (Error ''passed HTML node is not a 'body' element''))
   \<and> Pages (example_env []) [] = Inr ([], Some (Error ''passed HTML node is not a 'body' element''))"
proof -
  have a: "\<not> parsetree_IsBody [html_element ''div'' [] [html_element ''h1'' [] [html_text ''A'']]]"
    by code_simp
  have b: "\<not> parsetree_IsBody []"
    by code_simp
  from a b C8_not_a_body[OF a, of "example_env []"] C8_not_a_body[OF b, of "example_env []"]
  show ?thesis by blast
qed

text \<open>
  Claim C9. Every node that Headings enumerates has a level: HeadingLevel returns a level
  between 1 and 6 and no error for it, so the error branch of the level lookup in
  Chapters is never taken. IsHeading admits exactly the elements whose tag is one of h1
  to h6. Every chapter that Chapters returns, with or without an error, has a level
  between 1 and 6 and stems from an enumerated heading of that level. Chapters never
  panics; an error it returns is the error of the body check or an error of the
  serializer, never the error of the level lookup; and it returns no error on a body
  whenever the serializer does not fail.
\<close>

theorem C9_heading_levels:
  "(\<forall>h \<in> set (parsetree_Headings body).
       \<exists>level. parsetree_HeadingLevel h = Inr (level, None) \<and> 1 \<le> level \<and> level \<le> 6)
   \<and> (parsetree_IsHeading h \<longleftrightarrow>
         h \<noteq> [] \<and> Type (hd h) = ElementNode
         \<and> Data (hd h) \<in> {''h1'', ''h2'', ''h3'', ''h4'', ''h5'', ''h6''})
   \<and> (Chapters L body = Inr (chapters, err) \<longrightarrow>
        (\<forall>c \<in> set chapters.
            1 \<le> Level c \<and> Level c \<le> 6
          \<and> (\<exists>h \<in> set (parsetree_Headings body).
                parsetree_IsHeading h \<and> parsetree_HeadingLevel h = Inr (Level c, None))))
   \<and> (\<exists>chapters err. Chapters L body = Inr (chapters, err))
   \<and> (Chapters L body = Inr (chapters, Some e) \<longrightarrow>
        (\<not> parsetree_IsBody body \<and> chapters = []
           \<and> e = Error ''passed HTML node is not a 'body' element'')
        \<or> (\<exists>n. html_Render L n = Inl e))
   \<and> (parsetree_IsBody body \<and> (\<forall>n. \<exists>s. html_Render L n = Inr s) \<longrightarrow>
        (\<exists>chapters. Chapters L body = Inr (chapters, None)))"
proof -
  have A: "\<forall>h \<in> set (parsetree_Headings body).
       \<exists>level. parsetree_HeadingLevel h = Inr (level, None) \<and> 1 \<le> level \<and> level \<le> 6"
    by (intro ballI IsHeading_HeadingLevel Headings_IsHeading)
  have "parsetree_HeadingMap d \<noteq> None \<longleftrightarrow> d \<in> {''h1'', ''h2'', ''h3'', ''h4'', ''h5'', ''h6''}" for d
    by (simp add: parsetree_HeadingMap_def)
  then have B: "parsetree_IsHeading h \<longleftrightarrow>
         h \<noteq> [] \<and> Type (hd h) = ElementNode
         \<and> Data (hd h) \<in> {''h1'', ''h2'', ''h3'', ''h4'', ''h5'', ''h6''}"
    by (simp only: IsHeading_iff)
  have C: "Chapters L body = Inr (chapters, err) \<longrightarrow>
        (\<forall>c \<in> set chapters.
            1 \<le> Level c \<and> Level c \<le> 6
          \<and> (\<exists>h \<in> set (parsetree_Headings body).
                parsetree_IsHeading h \<and> parsetree_HeadingLevel h = Inr (Level c, None)))"
  proof (intro impI ballI)
    fix c assume run: "Chapters L body = Inr (chapters, err)" and c: "c \<in> set chapters"
    from c obtain k where k: "k < length chapters" "c = chapters ! k"
      by (auto simp: in_set_conv_nth)
    from run have h: "k < length (parsetree_Headings body)
      \<and> parsetree_HeadingLevel (parsetree_Headings body ! k) = Inr (Level c, None)"
    proof (cases rule: Chapters_cases[of body L])
      case not_body
      with k run show ?thesis by simp
    next
      case (body new err')
      with k run show ?thesis by auto
    qed
    let ?h = "parsetree_Headings body ! k"
    from h have mem: "?h \<in> set (parsetree_Headings body)" by simp
    then have ih: "parsetree_IsHeading ?h" by (rule Headings_IsHeading)
    from IsHeading_HeadingLevel[OF ih] h have rng: "1 \<le> Level c \<and> Level c \<le> 6" by auto
    from mem ih h have
      "\<exists>h \<in> set (parsetree_Headings body).
          parsetree_IsHeading h \<and> parsetree_HeadingLevel h = Inr (Level c, None)"
      by blast
    with rng show "1 \<le> Level c \<and> Level c \<le> 6
          \<and> (\<exists>h \<in> set (parsetree_Headings body).
                parsetree_IsHeading h \<and> parsetree_HeadingLevel h = Inr (Level c, None))"
      by blast
  qed
  have D: "\<exists>chapters err. Chapters L body = Inr (chapters, err)"
    by (cases rule: Chapters_cases[of body L]) blast+
  have E: "parsetree_IsBody body \<and> (\<forall>n. \<exists>s. html_Render L n = Inr s) \<longrightarrow>
        (\<exists>chapters. Chapters L body = Inr (chapters, None))"
    using Chapters_total by blast
  have F: "Chapters L body = Inr (chapters, Some e) \<longrightarrow>
        (\<not> parsetree_IsBody body \<and> chapters = []
           \<and> e = Error ''passed HTML node is not a 'body' element'')
        \<or> (\<exists>n. html_Render L n = Inl e)"
    using Chapters_error by blast
  show ?thesis
    by (intro conjI) (fact A, fact B, fact C, fact D, fact F, fact E)
qed

theorem C9_heading_levels_witness:
  "map Level (fst (projr (Chapters (example_env []) levels_body))) = [1, 6]
   \<and> map parsetree_HeadingLevel (parsetree_Headings levels_body)
       = [Inr (1, None), Inr (6, None)]
   \<and> \<not> parsetree_IsHeading [html_element ''h7'' [] [html_text ''Seven'']]
   \<and> parsetree_HeadingLevel [html_element ''h7'' [] [html_text ''Seven'']]
       = Inr (- 1, Some (Error ''the given node contains no valid heading tag''))
   \<and> snd (projr (Chapters (example_env []) levels_body)) = None"
proof -
  let ?r = "projr (Chapters (example_env []) levels_body)"
  have run: "Chapters (example_env []) levels_body = Inr (fst ?r, snd ?r)"
    by code_simp
  have lv: "map Level (fst ?r) = [1, 6]" by code_simp
  have hl: "map parsetree_HeadingLevel (parsetree_Headings levels_body)
       = [Inr (1, None), Inr (6, None)]" by code_simp
  have h7: "parsetree_HeadingLevel [html_element ''h7'' [] [html_text ''Seven'']]
       = Inr (- 1, Some (Error ''the given node contains no valid heading tag''))" by code_simp
  have d7: "[html_element ''h7'' [] [html_text ''Seven'']] \<noteq> []
     \<and> Data (hd [html_element ''h7'' [] [html_text ''Seven'']]) \<notin> {''h1'', ''h2'', ''h3'', ''h4'', ''h5'', ''h6''}"
    by code_simp
  note inst = C9_heading_levels[of levels_body "[html_element ''h7'' [] [html_text ''Seven'']]"
      "example_env []" "fst ?r" "snd ?r"]
  from inst d7 have n7: "\<not> parsetree_IsHeading [html_element ''h7'' [] [html_text ''Seven'']]"
    by blast
  have e: "snd ?r = None" by code_simp
  from lv hl n7 h7 e show ?thesis by blast
qed



end
